theory Spec2Isabelle
  imports Complex_Main "HOL-Library.Word" "HOL-Library.Log_Nat"
begin

section \<open>Box blur over 24-bit bitmaps: the program as HOL functions\<close>

text \<open>
  The development embeds \<^verbatim>\<open>smooth_filter_openmp.c\<close>: the bitmap reader and writer
  (\<^verbatim>\<open>readBmp\<close>, \<^verbatim>\<open>writeBmp\<close>), the smoothing kernel
  (\<^verbatim>\<open>processImageSmoothFilter\<close>) and the driver (\<^verbatim>\<open>main\<close>).

  Machine integers are words of the width the program is compiled for on an LP64 target:
  \<^verbatim>\<open>size_t\<close> is a 64-bit word, \<^verbatim>\<open>unsigned int\<close> a 32-bit word, \<^verbatim>\<open>unsigned char\<close>
  an 8-bit word, so every \<open>+\<close>, \<open>-\<close> and \<open>*\<close> below wraps around as the C operator does.
  Buffers are lists indexed from 0. The C program has undefined behaviour where it indexes
  outside a buffer; the theorems about the kernel therefore assume buffers of
  \<open>width * height\<close> pixels whose byte size \<open>3 * width * height\<close> fits in \<^verbatim>\<open>size_t\<close>, which is
  what \<^verbatim>\<open>allocateMemory\<close> can hand out.
\<close>

subsection \<open>Floating point: IEEE 754 rounding on exact rationals\<close>

text \<open>
  The kernel computes \<^verbatim>\<open>(unsigned char)((float)r / count + 0.5)\<close>. A floating-point value is
  modelled by the rational it denotes, and every operation rounds the exact result to the
  format's precision with round-to-nearest, ties-to-even: \<open>fl_round 24\<close> for \<^verbatim>\<open>float\<close>
  (binary32, 24 significant bits) and \<open>fl_round 53\<close> for \<^verbatim>\<open>double\<close> (binary64). This is the
  evaluation a target with \<^verbatim>\<open>FLT_EVAL_METHOD == 0\<close> performs (SSE2 on x86-64, AArch64).
  Exponent range is not modelled: every value that occurs lies between \<open>2\<^sup>-\<^sup>6\<^sup>4\<close> and
  \<open>2\<^sup>3\<^sup>3\<close>, far inside the normal range of both formats.

  \<open>ilog2 x\<close> is the exponent \<open>\<lfloor>log\<^sub>2 x\<rfloor>\<close> of a positive rational, computed from bit lengths.
  The conversion to \<^verbatim>\<open>unsigned char\<close> truncates; the values converted are never negative,
  so truncation is the floor. Division is by a pixel count, which is at least 1 for every
  pixel of a buffer that fits the address space.
\<close>

definition ilog2 :: "rat \<Rightarrow> int" where
  "ilog2 x = (if 1 \<le> x then bitlen \<lfloor>x\<rfloor> - 1 else - bitlen (\<lceil>1 / x\<rceil> - 1))"

definition round_half_even :: "rat \<Rightarrow> int" where
  "round_half_even s =
     (let f = \<lfloor>s\<rfloor>; d = s - of_int f
      in if d < 1 / 2 then f else if 1 / 2 < d then f + 1 else if even f then f else f + 1)"

definition fl_round :: "nat \<Rightarrow> rat \<Rightarrow> rat" where
  "fl_round p x =
     (if x = 0 then 0
      else let u = 2 powi (ilog2 \<bar>x\<bar> - int p + 1)
           in sgn x * of_int (round_half_even (\<bar>x\<bar> / u)) * u)"

subsection \<open>Pixels and the C arithmetic the kernel uses\<close>

type_synonym size_t = "64 word"

type_synonym uint = "32 word"

type_synonym uchar = "8 word"

type_synonym c_float = rat

type_synonym c_double = rat

record RgbPixel =
  chan_b :: uchar
  chan_g :: uchar
  chan_r :: uchar

definition float_of_uint :: "uint \<Rightarrow> c_float" where
  "float_of_uint x = fl_round 24 (of_nat (unat x))"

definition float_of_size_t :: "size_t \<Rightarrow> c_float" where
  "float_of_size_t x = fl_round 24 (of_nat (unat x))"

definition float_div :: "c_float \<Rightarrow> c_float \<Rightarrow> c_float" where
  "float_div x y = fl_round 24 (x / y)"

definition double_add :: "c_double \<Rightarrow> c_double \<Rightarrow> c_double" where
  "double_add x y = fl_round 53 (x + y)"

definition uchar_of_double :: "c_double \<Rightarrow> uchar" where
  "uchar_of_double x = word_of_int \<lfloor>x\<rfloor>"

definition ROUND :: "c_float \<Rightarrow> uchar" where
  "ROUND x = uchar_of_double (double_add x (1 / 2))"

definition channel_mean :: "uint \<Rightarrow> size_t \<Rightarrow> uchar" where
  "channel_mean s count = ROUND (float_div (float_of_uint s) (float_of_size_t count))"

subsection \<open>The smoothing kernel\<close>

text \<open>
  \<open>for_upto s e\<close> lists the values a loop \<^verbatim>\<open>for (x = s; x <= e; x++)\<close> runs through and
  \<open>for_below n\<close> those of \<^verbatim>\<open>for (x = 0; x < n; x++)\<close>. The window loops only run with
  \<open>e \<le> height - 1\<close> (or \<open>width - 1\<close>), so the counter never reaches the largest
  \<^verbatim>\<open>size_t\<close> value and \<^verbatim>\<open>x++\<close> does not wrap.

  \<open>accumulate\<close> is the body of the innermost loop, \<open>window_sums\<close> the two window loops,
  \<open>channel_mean\<close> the expression \<^verbatim>\<open>ROUND((float)x / count)\<close> that is written once per channel,
  \<open>smooth_pixel\<close> the value the body of the pixel loop computes for \<open>(i, j)\<close>, and
  \<open>store_pixel\<close> that body with its store into \<^verbatim>\<open>result\<close>. The source and the destination
  are separate lists: the driver allocates them separately. \<open>processImageSmoothFilter\<close>
  runs the iterations in program order; that the order does not matter, which is what the
  \<^verbatim>\<open>omp parallel for\<close> pragma relies on, is a theorem below.
\<close>

definition for_upto :: "size_t \<Rightarrow> size_t \<Rightarrow> size_t list" where
  "for_upto lo hi = map of_nat [unat lo ..< Suc (unat hi)]"

definition for_below :: "size_t \<Rightarrow> size_t list" where
  "for_below n = map of_nat [0 ..< unat n]"

definition accumulate :: "RgbPixel list \<Rightarrow> size_t \<Rightarrow> size_t \<Rightarrow> size_t \<Rightarrow> uint \<times> uint \<times> uint
    \<Rightarrow> uint \<times> uint \<times> uint" where
  "accumulate bmp width ii jj acc =
     (case acc of (r, g, b) \<Rightarrow>
        let position = ii * width + jj
        in (r + ucast (chan_r (bmp ! unat position)),
            g + ucast (chan_g (bmp ! unat position)),
            b + ucast (chan_b (bmp ! unat position))))"

definition window_sums :: "RgbPixel list \<Rightarrow> size_t \<Rightarrow> size_t \<Rightarrow> size_t \<Rightarrow> size_t \<Rightarrow> size_t
    \<Rightarrow> uint \<times> uint \<times> uint" where
  "window_sums bmp width starti endi startj endj =
     fold (\<lambda>ii. fold (accumulate bmp width ii) (for_upto startj endj))
       (for_upto starti endi) (0, 0, 0)"

definition smooth_pixel :: "RgbPixel list \<Rightarrow> size_t \<Rightarrow> size_t \<Rightarrow> size_t \<Rightarrow> size_t \<Rightarrow> size_t
    \<Rightarrow> RgbPixel" where
  "smooth_pixel bmp width height radius i j =
     (let starti = (if i < radius then 0 else i - radius);
          endi = (if i + radius \<ge> height then height - 1 else i + radius);
          startj = (if j < radius then 0 else j - radius);
          endj = (if j + radius \<ge> width then width - 1 else j + radius);
          count = (endi - starti + 1) * (endj - startj + 1);
          (r, g, b) = window_sums bmp width starti endi startj endj
      in \<lparr>chan_b = channel_mean b count,
          chan_g = channel_mean g count,
          chan_r = channel_mean r count\<rparr>)"

definition store_pixel :: "RgbPixel list \<Rightarrow> size_t \<Rightarrow> size_t \<Rightarrow> size_t \<Rightarrow> size_t \<times> size_t
    \<Rightarrow> RgbPixel list \<Rightarrow> RgbPixel list" where
  "store_pixel bmp width height radius ij result =
     (case ij of (i, j) \<Rightarrow>
        let resultPosition = i * width + j
        in result[unat resultPosition := smooth_pixel bmp width height radius i j])"

definition processImageSmoothFilter :: "RgbPixel list \<Rightarrow> size_t \<Rightarrow> size_t \<Rightarrow> size_t \<Rightarrow> RgbPixel list
    \<Rightarrow> RgbPixel list" where
  "processImageSmoothFilter bmp width height radius result =
     fold (\<lambda>i. fold (\<lambda>j. store_pixel bmp width height radius (i, j)) (for_below width))
       (for_below height) result"

subsection \<open>Auxiliary notions for stating the kernel's properties\<close>

text \<open>
  \<open>iterations\<close> is the iteration space of the two pixel loops in program order,
  \<open>window_total\<close> the exact (unbounded) sum of one channel over a rectangle of the
  row-major buffer, \<open>win_start\<close>, \<open>win_end\<close> and \<open>window_count\<close> the window bounds and the
  divisor exactly as the loop body computes them.
\<close>

definition iterations :: "size_t \<Rightarrow> size_t \<Rightarrow> (size_t \<times> size_t) list" where
  "iterations width height = concat (map (\<lambda>i. map (Pair i) (for_below width)) (for_below height))"

definition pos_of :: "size_t \<Rightarrow> size_t \<times> size_t \<Rightarrow> nat" where
  "pos_of width ij = unat (fst ij) * unat width + unat (snd ij)"

definition window_total :: "(RgbPixel \<Rightarrow> uchar) \<Rightarrow> RgbPixel list \<Rightarrow> nat \<Rightarrow> nat \<Rightarrow> nat \<Rightarrow> nat \<Rightarrow> nat \<Rightarrow> nat" where
  "window_total ch bmp W i0 i1 j0 j1 =
     (\<Sum>ii\<leftarrow>[i0 ..< Suc i1]. \<Sum>jj\<leftarrow>[j0 ..< Suc j1]. unat (ch (bmp ! (ii * W + jj))))"

definition win_start :: "size_t \<Rightarrow> size_t \<Rightarrow> size_t" where
  "win_start i radius = (if i < radius then 0 else i - radius)"

definition win_end :: "size_t \<Rightarrow> size_t \<Rightarrow> size_t \<Rightarrow> size_t" where
  "win_end i radius n = (if i + radius \<ge> n then n - 1 else i + radius)"

definition window_count :: "size_t \<Rightarrow> size_t \<Rightarrow> size_t \<Rightarrow> size_t \<Rightarrow> size_t \<Rightarrow> size_t" where
  "window_count width height radius i j =
     (let starti = (if i < radius then 0 else i - radius);
          endi = (if i + radius \<ge> height then height - 1 else i + radius);
          startj = (if j < radius then 0 else j - radius);
          endj = (if j + radius \<ge> width then width - 1 else j + radius)
      in (endi - starti + 1) * (endj - startj + 1))"

definition max_channel :: "RgbPixel \<Rightarrow> nat" where
  "max_channel p = max (unat (chan_b p)) (max (unat (chan_g p)) (unat (chan_r p)))"

subsection \<open>The specification's reading of the filter\<close>

text \<open>
  These definitions follow the specification's words, not the code: the window
  \<open>[max(0, i - radius), min(n - 1, i + radius)]\<close> over unbounded integers, its pixel count,
  and the mean rounded half up, \<open>\<lfloor>sum / count + 1/2\<rfloor>\<close>.
\<close>

definition spec_round_mean :: "nat \<Rightarrow> nat \<Rightarrow> nat" where
  "spec_round_mean S n = nat \<lfloor>(of_nat S / of_nat n :: rat) + 1 / 2\<rfloor>"

definition spec_window :: "nat \<Rightarrow> nat \<Rightarrow> nat \<Rightarrow> nat \<times> nat" where
  "spec_window n radius i = (nat (max 0 (int i - int radius)), min (n - 1) (i + radius))"

definition spec_count :: "nat \<Rightarrow> nat \<Rightarrow> nat \<Rightarrow> nat \<Rightarrow> nat \<Rightarrow> nat" where
  "spec_count W H radius i j =
     (case spec_window H radius i of (i0, i1) \<Rightarrow>
      case spec_window W radius j of (j0, j1) \<Rightarrow> (i1 - i0 + 1) * (j1 - j0 + 1))"

definition spec_smooth_pixel :: "RgbPixel list \<Rightarrow> nat \<Rightarrow> nat \<Rightarrow> nat \<Rightarrow> nat \<Rightarrow> nat \<Rightarrow> RgbPixel" where
  "spec_smooth_pixel src W H radius i j =
     (case spec_window H radius i of (i0, i1) \<Rightarrow>
      case spec_window W radius j of (j0, j1) \<Rightarrow>
        \<lparr>chan_b = of_nat (spec_round_mean (window_total chan_b src W i0 i1 j0 j1) (spec_count W H radius i j)),
         chan_g = of_nat (spec_round_mean (window_total chan_g src W i0 i1 j0 j1) (spec_count W H radius i j)),
         chan_r = of_nat (spec_round_mean (window_total chan_r src W i0 i1 j0 j1) (spec_count W H radius i j))\<rparr>)"

subsection \<open>Concrete images used as examples\<close>

definition gray :: "nat \<Rightarrow> RgbPixel" where
  "gray v = \<lparr>chan_b = of_nat v, chan_g = of_nat v, chan_r = of_nat v\<rparr>"

definition corner_image :: "RgbPixel list" where
  "corner_image = gray 255 # replicate 8 (gray 0)"

definition tie_image :: "RgbPixel list" where
  "tie_image = replicate 32965 (gray 254) @ replicate 32965 (gray 255)"

definition white_row :: "RgbPixel list" where
  "white_row = replicate 16843010 (gray 255)"

subsection \<open>The bitmap codec and the driver\<close>

text \<open>
  A file is the list of its bytes; the file system maps a path to the contents of the file
  and says which paths can be opened for writing. \<^verbatim>\<open>fopen(..., "rb")\<close> fails exactly when
  the path has no contents. The heap records how many blocks are allocated and what an
  uninitialised block contains; \<^verbatim>\<open>malloc\<close> is taken to succeed. \<^verbatim>\<open>getWidth\<close> and
  \<^verbatim>\<open>getHeight\<close> load an \<^verbatim>\<open>unsigned int\<close> through a pointer cast, which on a little-endian
  target is \<open>load_uint\<close>.

  \<open>allocateMemory\<close> computes the block's byte size \<^verbatim>\<open>sizeof(struct RgbPixel) * size\<close> in
  \<^verbatim>\<open>size_t\<close>; the block holds as many whole pixels as that many bytes.
  \<open>read_pixels\<close> is the pixel loop of \<^verbatim>\<open>readBmp\<close>: \<open>None\<close> is the short read that makes
  \<^verbatim>\<open>readBmp\<close> release the buffer and return \<^verbatim>\<open>false\<close>. The results of \<open>readBmp\<close> are the
  returned flag, the caller's header buffer, \<^verbatim>\<open>*bmp\<close> and the heap.

  \<open>writeBmp\<close> describes the source on the paths where the output can be opened. When
  \<^verbatim>\<open>fopen\<close> fails the source passes the null stream to \<^verbatim>\<open>fclose\<close> before it returns
  \<^verbatim>\<open>false\<close>, which C leaves undefined and which in practice ends the process; the value
  \<open>(False, fs)\<close> of the definition on that path is what the function returns if that call
  does nothing, and no theorem below is about that path: each assumes the output writable.

  \<open>main\<close> returns the exit status, the lines printed, the file system and the heap. The two
  timing lines printed after the 100 invocations depend on the wall clock and are left out
  of the lines printed. For an output that cannot be opened, \<open>main\<close> inherits the value of
  \<open>writeBmp\<close> described above. \<^verbatim>\<open>atoi\<close> yields a 32-bit \<^verbatim>\<open>int\<close>, which the cast to
  \<^verbatim>\<open>size_t\<close> sign-extends; for a number outside the range of \<^verbatim>\<open>int\<close>, where C leaves
  \<^verbatim>\<open>atoi\<close> undefined, the definition follows glibc,
  in which \<^verbatim>\<open>atoi\<close> is \<^verbatim>\<open>strtol\<close>, saturating at the bounds of \<^verbatim>\<open>long\<close>, truncated to
  \<^verbatim>\<open>int\<close>.
\<close>

type_synonym bytes = "uchar list"

definition BMP_HEADER_SIZE :: nat where "BMP_HEADER_SIZE = 54"

definition BMP_HEADER_WIDTH_OFFSET :: nat where "BMP_HEADER_WIDTH_OFFSET = 18"

definition BMP_HEADER_HEIGHT_OFFSET :: nat where "BMP_HEADER_HEIGHT_OFFSET = 22"

definition PIXEL_REAL_SIZE :: nat where "PIXEL_REAL_SIZE = 3"

definition load_uint :: "bytes \<Rightarrow> nat \<Rightarrow> uint" where
  "load_uint mem off =
     ucast (mem ! off) + 256 * ucast (mem ! (off + 1)) + 65536 * ucast (mem ! (off + 2))
       + 16777216 * ucast (mem ! (off + 3))"

definition getWidth :: "bytes \<Rightarrow> size_t" where
  "getWidth header = (let value = load_uint header BMP_HEADER_WIDTH_OFFSET in ucast value)"

definition getHeight :: "bytes \<Rightarrow> size_t" where
  "getHeight header = (let value = load_uint header BMP_HEADER_HEIGHT_OFFSET in ucast value)"

record heap =
  live_blocks :: nat
  fresh_contents :: "nat \<Rightarrow> RgbPixel"

definition allocateMemory :: "size_t \<Rightarrow> heap \<Rightarrow> RgbPixel list \<times> heap" where
  "allocateMemory sz h =
     (let n_bytes = (3 :: size_t) * sz
      in (map (fresh_contents h) [0 ..< unat n_bytes div 3], h\<lparr>live_blocks := live_blocks h + 1\<rparr>))"

definition deallocateMemory :: "RgbPixel list option \<Rightarrow> heap \<Rightarrow> RgbPixel list option \<times> heap" where
  "deallocateMemory data h =
     (None, case data of None \<Rightarrow> h | Some _ \<Rightarrow> h\<lparr>live_blocks := live_blocks h - 1\<rparr>)"

record filesystem =
  contents :: "string \<Rightarrow> bytes option"
  writable :: "string \<Rightarrow> bool"

definition fread :: "nat \<Rightarrow> bytes \<Rightarrow> bytes \<times> bytes" where
  "fread count stream = (take count stream, drop count stream)"

definition pixel_of_bytes :: "bytes \<Rightarrow> RgbPixel" where
  "pixel_of_bytes bs = \<lparr>chan_b = bs ! 0, chan_g = bs ! 1, chan_r = bs ! 2\<rparr>"

definition bytes_of_pixel :: "RgbPixel \<Rightarrow> bytes" where
  "bytes_of_pixel p = [chan_b p, chan_g p, chan_r p]"

function read_pixels :: "nat \<Rightarrow> nat \<Rightarrow> bytes \<Rightarrow> RgbPixel list \<Rightarrow> RgbPixel list option" where
  "read_pixels i sz stream bmp =
     (if i < sz then
        (case fread PIXEL_REAL_SIZE stream of (chunk, rest) \<Rightarrow>
           if length chunk \<noteq> PIXEL_REAL_SIZE then None
           else read_pixels (i + 1) sz rest (bmp[i := pixel_of_bytes chunk]))
      else Some bmp)"
  by pat_completeness auto
termination
  by (relation "measure (\<lambda>(i, sz, stream, bmp). sz - i)") auto

declare read_pixels.simps [simp del]

definition readBmp :: "filesystem \<Rightarrow> string \<Rightarrow> bytes \<Rightarrow> RgbPixel list option \<Rightarrow> heap
    \<Rightarrow> bool \<times> bytes \<times> RgbPixel list option \<times> heap" where
  "readBmp fs filename header bmp h =
     (case contents fs filename of
        None \<Rightarrow> (False, header, bmp, h)
      | Some fileBmp \<Rightarrow>
          (case fread BMP_HEADER_SIZE fileBmp of (got, rest) \<Rightarrow>
             let header' = got @ drop (length got) header
             in if length got \<noteq> BMP_HEADER_SIZE then (False, header', bmp, h)
                else
                  let width = getWidth header'; height = getHeight header';
                      sz = width * height;
                      (buf, h1) = allocateMemory sz h
                  in (case read_pixels 0 (unat sz) rest buf of
                        None \<Rightarrow>
                          (case deallocateMemory (Some buf) h1 of (bmp', h2) \<Rightarrow> (False, header', bmp', h2))
                      | Some buf' \<Rightarrow> (True, header', Some buf', h1))))"

definition writeBmp :: "filesystem \<Rightarrow> string \<Rightarrow> bytes \<Rightarrow> RgbPixel list \<Rightarrow> bool \<times> filesystem" where
  "writeBmp fs filename header bmp =
     (if \<not> writable fs filename then (False, fs)
      else
        let width = getWidth header; height = getHeight header;
            sz = width * height;
            written = take BMP_HEADER_SIZE header
                      @ concat (map (\<lambda>i. bytes_of_pixel (bmp ! i)) [0 ..< unat sz])
        in (True, fs\<lparr>contents := (contents fs)(filename \<mapsto> written)\<rparr>))"

definition isspace :: "char \<Rightarrow> bool" where
  "isspace c = (c \<in> set [CHR '' '', CHR 0x09, CHR 0x0A, CHR 0x0B, CHR 0x0C, CHR 0x0D])"

definition digit_value :: "char \<Rightarrow> int option" where
  "digit_value c = (let n = of_char c :: nat in if 48 \<le> n \<and> n \<le> 57 then Some (int n - 48) else None)"

fun digits_value :: "int \<Rightarrow> string \<Rightarrow> int" where
  "digits_value acc [] = acc"
| "digits_value acc (c # cs) =
     (case digit_value c of None \<Rightarrow> acc | Some d \<Rightarrow> digits_value (10 * acc + d) cs)"

definition strtol :: "string \<Rightarrow> 64 word" where
  "strtol s =
     (let s1 = dropWhile isspace s;
          v = (case s1 of
                 CHR ''-'' # ds \<Rightarrow> - digits_value 0 ds
               | CHR ''+'' # ds \<Rightarrow> digits_value 0 ds
               | _ \<Rightarrow> digits_value 0 s1)
      in word_of_int (max (- (2 ^ 63)) (min (2 ^ 63 - 1) v)))"

definition atoi :: "string \<Rightarrow> 32 word" where
  "atoi s = ucast (strtol s)"

definition usage_line :: string where
  "usage_line = ''Usage: <program name> <input bmp file name> <output bmp file name> <radius>''"

definition main :: "bytes \<Rightarrow> heap \<Rightarrow> filesystem \<Rightarrow> string list \<Rightarrow> int \<times> string list \<times> filesystem \<times> heap" where
  "main header0 h fs argv =
     (if length argv \<noteq> 4 then (0, [usage_line], fs, h)
      else
        let inputBmpFileName = argv ! 1;
            outputBmpFileName = argv ! 2;
            radius = (scast (atoi (argv ! 3)) :: size_t)
        in (case readBmp fs inputBmpFileName header0 None h of (readResult, header, bmp, h1) \<Rightarrow>
              if \<not> readResult then (1, [''Cannot read bmp file '' @ inputBmpFileName], fs, h1)
              else
                let width = getWidth header; height = getHeight header
                in (case allocateMemory (width * height) h1 of (resultBmp, h2) \<Rightarrow>
                      let resultBmp' = ((processImageSmoothFilter (the bmp) width height radius) ^^ 100) resultBmp
                      in (case writeBmp fs outputBmpFileName header resultBmp' of (writeResult, fs') \<Rightarrow>
                            if \<not> writeResult
                            then (1, [''Cannot write bmp file '' @ outputBmpFileName], fs', h2)
                            else (case deallocateMemory bmp h2 of (bmp', h3) \<Rightarrow>
                                  (case deallocateMemory (Some resultBmp') h3 of (resultBmp'', h4) \<Rightarrow>
                                     (0, [], fs', h4)))))))"

text \<open>A 1 x 1 image and a small file system, used as concrete inputs.\<close>

definition example_header :: bytes where
  "example_header = replicate 18 66 @ [1, 0, 0, 0, 1, 0, 0, 0] @ replicate 28 7"

definition example_file :: bytes where
  "example_file = example_header @ [10, 20, 30]"

definition example_fs :: filesystem where
  "example_fs =
     \<lparr>contents = (\<lambda>name. if name = ''in.bmp'' then Some example_file
                       else if name = ''short.bmp'' then Some [66, 77]
                       else if name = ''cut.bmp'' then Some (example_header @ [10, 20])
                       else None),
      writable = (\<lambda>name. name = ''out.bmp'')\<rparr>"

definition example_heap :: heap where
  "example_heap = \<lparr>live_blocks = 0, fresh_contents = (\<lambda>_. gray 0)\<rparr>"

section \<open>Properties of the rounding model\<close>

text \<open>
  The exponent is correct, rounding is monotone, exact on representable numbers, and off by
  at most half a unit in the last place.
\<close>

lemma pw2_less_iff: "(2::rat) powi a < 2 powi b \<longleftrightarrow> a < b"
proof
  assume l: "(2::rat) powi a < 2 powi b"
  show "a < b"
  proof (rule ccontr)
    assume "\<not> a < b"
    then have "b \<le> a" by simp
    then have "(2::rat) powi b \<le> 2 powi a" by (intro power_int_increasing) auto
    with l show False by simp
  qed
next
  assume "a < b"
  then show "(2::rat) powi a < 2 powi b" by (intro power_int_strict_increasing) auto
qed

lemma pw2_le_iff: "(2::rat) powi a \<le> 2 powi b \<longleftrightarrow> a \<le> b"
  using pw2_less_iff[of b a] by (auto simp: not_less[symmetric])

lemma pw2_add: "(2::rat) powi (a + b) = 2 powi a * 2 powi b"
  by (rule power_int_add) simp

lemma pw2_nat: "(2::rat) powi (int n) = 2 ^ n"
  by simp

lemma bitlen_bounds_rat:
  assumes "0 < n"
  shows "(2::rat) powi (bitlen n - 1) \<le> of_int n" "of_int n < (2::rat) powi (bitlen n)"
proof -
  from bitlen_bounds[OF assms] have a: "2 ^ nat (bitlen n - 1) \<le> n" and b: "n < 2 ^ nat (bitlen n)"
    by auto
  have ge1: "1 \<le> bitlen n" using assms by (auto simp: bitlen_alt_def)
  have "(of_int (2 ^ nat (bitlen n - 1)) :: rat) \<le> of_int n" using a by (simp only: of_int_le_iff)
  then show "(2::rat) powi (bitlen n - 1) \<le> of_int n"
    using ge1 by (simp add: power_int_def)
  have "(of_int n :: rat) < of_int (2 ^ nat (bitlen n))" using b by (simp only: of_int_less_iff)
  then show "of_int n < (2::rat) powi (bitlen n)"
    using ge1 by (simp add: power_int_def)
qed

lemma ilog2_bounds:
  assumes "0 < x"
  shows "2 powi (ilog2 x) \<le> x" "x < 2 powi (ilog2 x + 1)"
proof -
  have "2 powi (ilog2 x) \<le> x \<and> x < 2 powi (ilog2 x + 1)"
  proof (cases "1 \<le> x")
    case True
    define n where "n = \<lfloor>x\<rfloor>"
    have n: "0 < n" "of_int n \<le> x" "x < of_int n + 1" using True unfolding n_def
      by (simp, simp, linarith)
    have "x < of_int (n + 1)" using n by simp
    also have "(of_int (n + 1) :: rat) \<le> 2 powi (bitlen n)"
    proof -
      from bitlen_bounds[OF n(1)] have "n + 1 \<le> 2 ^ nat (bitlen n)" by auto
      then have "(of_int (n + 1) :: rat) \<le> of_int (2 ^ nat (bitlen n))" by (simp only: of_int_le_iff)
      moreover have "0 \<le> bitlen n" by (rule bitlen_nonneg)
      ultimately show ?thesis by (simp add: power_int_def)
    qed
    finally have "x < 2 powi (bitlen n)" .
    moreover have "2 powi (bitlen n - 1) \<le> x" using bitlen_bounds_rat(1)[OF n(1)] n(2) by simp
    ultimately show ?thesis using True by (simp add: ilog2_def n_def)
  next
    case False
    define y where "y = 1 / x"
    define n where "n = \<lceil>y\<rceil> - 1"
    have y1: "1 < y" using False assms by (simp add: y_def)
    have n: "0 < n" "of_int n < y" "y \<le> of_int n + 1" unfolding n_def using y1
      by (auto simp: less_ceiling_iff) linarith+
    have xy: "x = 1 / y" by (simp add: y_def)
    have ypos: "0 < y" using y1 by simp
    have il: "ilog2 x = - bitlen n" using False by (simp add: ilog2_def n_def y_def)
    have "y \<le> of_int (n + 1)" using n by simp
    also have "(of_int (n + 1) :: rat) \<le> 2 powi (bitlen n)"
    proof -
      from bitlen_bounds[OF n(1)] have "n + 1 \<le> 2 ^ nat (bitlen n)" by auto
      then have "(of_int (n + 1) :: rat) \<le> of_int (2 ^ nat (bitlen n))" by (simp only: of_int_le_iff)
      moreover have "0 \<le> bitlen n" by (rule bitlen_nonneg)
      ultimately show ?thesis by (simp add: power_int_def)
    qed
    finally have up: "y \<le> 2 powi (bitlen n)" .
    have lo: "2 powi (bitlen n - 1) < y" using bitlen_bounds_rat(1)[OF n(1)] n(2) by simp
    have p1: "(0::rat) < 2 powi (bitlen n)" and p2: "(0::rat) < 2 powi (bitlen n - 1)" by simp_all
    have "2 powi (- bitlen n) \<le> x"
      using up ypos p1 unfolding xy power_int_minus by (simp add: field_simps)
    moreover have "x < 2 powi (- bitlen n + 1)"
    proof -
      have "- bitlen n + 1 = - (bitlen n - 1)" by simp
      then have "(2::rat) powi (- bitlen n + 1) = inverse (2 powi (bitlen n - 1))"
        by (simp only: power_int_minus)
      moreover have "1 / y < inverse (2 powi (bitlen n - 1))"
        using lo p2 ypos by (simp add: field_simps)
      ultimately show ?thesis by (simp add: xy)
    qed
    ultimately show ?thesis by (simp add: il)
  qed
  then show "2 powi (ilog2 x) \<le> x" "x < 2 powi (ilog2 x + 1)" by auto
qed

lemma ilog2_unique:
  assumes "0 < x" "2 powi e \<le> x" "x < 2 powi (e + 1)"
  shows "ilog2 x = e"
proof -
  from ilog2_bounds[OF assms(1)] have a: "2 powi (ilog2 x) \<le> x" and b: "x < 2 powi (ilog2 x + 1)" by auto
  have "(2::rat) powi e < 2 powi (ilog2 x + 1)" using assms(2) b by simp
  then have "e < ilog2 x + 1" by (simp add: pw2_less_iff)
  moreover have "(2::rat) powi (ilog2 x) < 2 powi (e + 1)" using assms(3) a by simp
  then have "ilog2 x < e + 1" by (simp add: pw2_less_iff)
  ultimately show ?thesis by simp
qed

lemma rhe_err: "\<bar>of_int (round_half_even s) - s\<bar> \<le> 1 / 2"
proof -
  have "of_int \<lfloor>s\<rfloor> \<le> s" "s < of_int \<lfloor>s\<rfloor> + 1" by linarith+
  then show ?thesis by (auto simp: round_half_even_def Let_def)
qed

lemma rhe_of_int [simp]: "round_half_even (of_int n) = n"
  by (simp add: round_half_even_def)

lemma rhe_cases:
  "round_half_even s = \<lfloor>s\<rfloor> \<or> round_half_even s = \<lfloor>s\<rfloor> + 1"
  by (simp add: round_half_even_def Let_def)

lemma rhe_mono:
  assumes "s \<le> t"
  shows "round_half_even s \<le> round_half_even t"
proof (cases "\<lfloor>s\<rfloor> = \<lfloor>t\<rfloor>")
  case True
  then show ?thesis using assms by (auto simp: round_half_even_def Let_def)
next
  case False
  then have "\<lfloor>s\<rfloor> + 1 \<le> \<lfloor>t\<rfloor>" using floor_mono[OF assms] by simp
  moreover have "round_half_even s \<le> \<lfloor>s\<rfloor> + 1" using rhe_cases[of s] by auto
  moreover have "\<lfloor>t\<rfloor> \<le> round_half_even t" using rhe_cases[of t] by auto
  ultimately show ?thesis by simp
qed

lemma fl_round_pos:
  assumes "0 < x"
  shows "fl_round p x =
    of_int (round_half_even (x / 2 powi (ilog2 x - int p + 1))) * 2 powi (ilog2 x - int p + 1)"
  using assms by (simp add: fl_round_def Let_def)

lemma fl_round_0 [simp]: "fl_round p 0 = 0"
  by (simp add: fl_round_def)

lemma fl_err:
  assumes "0 < x"
  shows "\<bar>fl_round p x - x\<bar> \<le> 2 powi (ilog2 x - int p)"
proof -
  define u :: rat where "u = 2 powi (ilog2 x - int p + 1)"
  have upos: "0 < u" by (simp add: u_def)
  have fl: "fl_round p x = of_int (round_half_even (x / u)) * u"
    using fl_round_pos[OF assms] by (simp add: u_def)
  have "fl_round p x - x = (of_int (round_half_even (x / u)) - x / u) * u"
    using upos by (simp add: fl field_simps)
  then have "\<bar>fl_round p x - x\<bar> = \<bar>of_int (round_half_even (x / u)) - x / u\<bar> * u"
    using upos by (simp add: abs_mult)
  also have "\<dots> \<le> (1 / 2) * u"
    using rhe_err[of "x / u"] upos by (intro mult_right_mono) auto
  also have "(1 / 2) * u = 2 powi (ilog2 x - int p)"
    using pw2_add[of "ilog2 x - int p" 1] by (simp add: u_def)
  finally show ?thesis .
qed

lemma fl_rel_err:
  assumes "0 < x"
  shows "\<bar>fl_round p x - x\<bar> \<le> x * 2 powi (- int p)"
proof -
  have "(2::rat) powi (ilog2 x - int p) = 2 powi (ilog2 x) * 2 powi (- int p)"
    using pw2_add[of "ilog2 x" "- int p"] by simp
  also have "\<dots> \<le> x * 2 powi (- int p)"
    using ilog2_bounds(1)[OF assms] by (intro mult_right_mono) auto
  finally show ?thesis using fl_err[OF assms, of p] by simp
qed

lemma fl_exact:
  assumes m: "0 < m" "m < 2 ^ p"
  shows "fl_round p (of_int m * 2 powi t) = of_int m * 2 powi t"
proof -
  define x :: rat where "x = of_int m * 2 powi t"
  have xpos: "0 < x" using m by (simp add: x_def)
  define e where "e = ilog2 x"
  have "(of_int m :: rat) < of_int (2 ^ p)" using m(2) by (simp only: of_int_less_iff)
  then have "x < 2 ^ p * 2 powi t" unfolding x_def by (intro mult_strict_right_mono) auto
  also have "(2::rat) ^ p * 2 powi t = 2 powi (int p + t)" by (simp add: pw2_add)
  finally have "x < 2 powi (int p + t)" .
  with ilog2_bounds(1)[OF xpos] have "(2::rat) powi e < 2 powi (int p + t)" by (simp add: e_def)
  then have "e < int p + t" by (simp add: pw2_less_iff)
  then have "0 \<le> t - e + int p - 1" by simp
  then obtain k where k: "t - e + int p - 1 = int k"
    using nonneg_int_cases by blast
  have "(2::rat) powi (t - (e - int p + 1)) = 2 powi t / 2 powi (e - int p + 1)"
    by (rule power_int_diff) simp
  then have "x / 2 powi (e - int p + 1) = of_int m * 2 powi (t - (e - int p + 1))"
    by (simp add: x_def)
  also have "t - (e - int p + 1) = int k" using k by simp
  also have "of_int m * (2::rat) powi int k = of_int (m * 2 ^ k)" by simp
  finally have q: "x / 2 powi (e - int p + 1) = of_int (m * 2 ^ k)" .
  have "fl_round p x = of_int (m * 2 ^ k) * 2 powi (e - int p + 1)"
    unfolding fl_round_pos[OF xpos] e_def[symmetric] q by (simp only: rhe_of_int)
  also have "\<dots> = of_int m * (2 powi int k * 2 powi (e - int p + 1))" by simp
  also have "(2::rat) powi int k * 2 powi (e - int p + 1) = 2 powi t"
    unfolding k[symmetric] pw2_add[symmetric] by simp
  finally show ?thesis by (simp add: x_def)
qed

lemma fl_range:
  assumes "0 < x" "0 < p"
  shows "2 powi (ilog2 x) \<le> fl_round p x" "fl_round p x \<le> 2 powi (ilog2 x + 1)"
proof -
  define e where "e = ilog2 x"
  define u :: rat where "u = 2 powi (e - int p + 1)"
  have upos: "0 < u" by (simp add: u_def)
  have fl: "fl_round p x = of_int (round_half_even (x / u)) * u"
    using fl_round_pos[OF assms(1)] by (simp add: u_def e_def)
  have lo: "2 powi e \<le> x" and hi: "x < 2 powi (e + 1)" using ilog2_bounds[OF assms(1)] by (auto simp: e_def)
  have e1: "(2::rat) powi e = of_int (2 ^ (p - 1)) * u"
  proof -
    have "(of_int (2 ^ (p - 1)) :: rat) = 2 powi (int (p - 1))"
      by (simp del: of_nat_diff)
    also have "int (p - 1) = int p - 1" using assms(2) by simp
    finally show ?thesis using pw2_add[of "int p - 1" "e - int p + 1"] by (simp add: u_def)
  qed
  have e2: "(2::rat) powi (e + 1) = of_int (2 ^ p) * u"
  proof -
    have "(of_int (2 ^ p) :: rat) = 2 powi (int p)" by simp
    then show ?thesis using pw2_add[of "int p" "e - int p + 1"] by (simp add: u_def)
  qed
  have "of_int (2 ^ (p - 1)) \<le> x / u" using lo upos unfolding e1 by (simp add: field_simps)
  from rhe_mono[OF this] have a: "2 ^ (p - 1) \<le> round_half_even (x / u)" by (simp only: rhe_of_int)
  have "x / u \<le> of_int (2 ^ p)" using hi upos unfolding e2 by (simp add: field_simps)
  from rhe_mono[OF this] have b: "round_half_even (x / u) \<le> 2 ^ p" by (simp only: rhe_of_int)
  have "(of_int (2 ^ (p - 1)) :: rat) * u \<le> of_int (round_half_even (x / u)) * u"
    using a upos by (intro mult_right_mono) (simp_all only: of_int_le_iff less_imp_le)
  then show "2 powi (ilog2 x) \<le> fl_round p x" unfolding fl e_def[symmetric] e1 .
  have "of_int (round_half_even (x / u)) * u \<le> (of_int (2 ^ p) :: rat) * u"
    using b upos by (intro mult_right_mono) (simp_all only: of_int_le_iff less_imp_le)
  then show "fl_round p x \<le> 2 powi (ilog2 x + 1)" unfolding fl e_def[symmetric] e2 .
qed

lemma fl_nonneg:
  assumes "0 \<le> x" "0 < p"
  shows "0 \<le> fl_round p x"
proof (cases "x = 0")
  case True then show ?thesis by simp
next
  case False
  then have "0 < x" using assms by simp
  from fl_range(1)[OF this assms(2)] show ?thesis
    by (meson order_trans zero_le_numeral zero_le_power_int)
qed

lemma fl_mono:
  assumes "0 \<le> x" "x \<le> y" "0 < p"
  shows "fl_round p x \<le> fl_round p y"
proof (cases "x = 0")
  case True
  then show ?thesis using fl_nonneg[of y p] assms by simp
next
  case False
  then have xpos: "0 < x" and ypos: "0 < y" using assms by auto
  have "(2::rat) powi (ilog2 x) < 2 powi (ilog2 y + 1)"
    using ilog2_bounds(1)[OF xpos] ilog2_bounds(2)[OF ypos] assms(2) by simp
  then have le: "ilog2 x \<le> ilog2 y" by (simp add: pw2_less_iff)
  show ?thesis
  proof (cases "ilog2 x = ilog2 y")
    case True
    define u :: rat where "u = 2 powi (ilog2 y - int p + 1)"
    have upos: "0 < u" by (simp add: u_def)
    have "x / u \<le> y / u" using assms(2) upos by (simp add: divide_right_mono)
    from rhe_mono[OF this] have "(of_int (round_half_even (x / u)) :: rat) \<le> of_int (round_half_even (y / u))"
      by (simp only: of_int_le_iff)
    then have "of_int (round_half_even (x / u)) * u \<le> of_int (round_half_even (y / u)) * u"
      using upos by (intro mult_right_mono) auto
    then show ?thesis unfolding fl_round_pos[OF xpos] fl_round_pos[OF ypos] True u_def .
  next
    case False
    then have "ilog2 x + 1 \<le> ilog2 y" using le by simp
    then have "(2::rat) powi (ilog2 x + 1) \<le> 2 powi (ilog2 y)" by (simp add: pw2_le_iff)
    then show ?thesis
      using fl_range(2)[OF xpos assms(3)] fl_range(1)[OF ypos assms(3)] by linarith
  qed
qed

subsection \<open>What the kernel's rounding expression computes\<close>

lemma fl_exact_nat:
  assumes "n < 2 ^ p"
  shows "fl_round p (of_nat n) = of_nat n"
proof (cases "n = 0")
  case True then show ?thesis by simp
next
  case False
  have "int n < int (2 ^ p)" using assms by (simp only: of_nat_less_iff)
  then have "int n < 2 ^ p" by simp
  from fl_exact[of "int n" p 0] False this show ?thesis by simp
qed

lemma fl_exact_int:
  assumes "0 \<le> m" "m < 2 ^ p"
  shows "fl_round p (of_int m * 2 powi t) = of_int m * 2 powi t"
proof (cases "m = 0")
  case True then show ?thesis by simp
next
  case False
  then show ?thesis using fl_exact[of m p t] assms by simp
qed

lemma ilog2_less:
  assumes "0 < x" "x < 2 powi e"
  shows "ilog2 x < e"
proof -
  have "(2::rat) powi (ilog2 x) < 2 powi e" using ilog2_bounds(1)[OF assms(1)] assms(2) by simp
  then show ?thesis by (simp add: pw2_less_iff)
qed

lemma fl_err_below:
  assumes "0 \<le> x" "x < 2 powi e"
  shows "fl_round p x \<le> x + 2 powi (e - 1 - int p)"
proof (cases "x = 0")
  case True then show ?thesis by simp
next
  case False
  then have xpos: "0 < x" using assms by simp
  have "ilog2 x - int p \<le> e - 1 - int p" using ilog2_less[OF xpos assms(2)] by simp
  then have "(2::rat) powi (ilog2 x - int p) \<le> 2 powi (e - 1 - int p)" by (simp only: pw2_le_iff)
  with fl_err[OF xpos, of p] show ?thesis by linarith
qed

lemma round_mean_exact:
  fixes S n :: nat
  assumes n: "0 < n" "n < 65536" and S: "S \<le> 255 * n"
  shows "\<lfloor>fl_round 53 (fl_round 24 (fl_round 24 (of_nat S) / fl_round 24 (of_nat n)) + 1 / 2)\<rfloor>
           = int ((2 * S + n) div (2 * n))"
proof -
  define k where "k = (2 * S + n) div (2 * n)"
  define x :: rat where "x = of_nat S / of_nat n"
  define q where "q = fl_round 24 x"
  define v where "v = fl_round 53 (q + 1 / 2)"
  have S24: "S < 2 ^ 24" using n S by simp
  have n24: "n < 2 ^ 24" using n by simp
  have flS: "fl_round 24 (of_nat S) = of_nat S" by (rule fl_exact_nat[OF S24])
  have fln: "fl_round 24 (of_nat n) = of_nat n" by (rule fl_exact_nat[OF n24])
  have npos: "(0::rat) < of_nat n" using n by simp
  have x0: "0 \<le> x" by (simp add: x_def)
  have k1: "k * (2 * n) \<le> 2 * S + n" unfolding k_def by simp
  have k2: "2 * S + n < (k + 1) * (2 * n)"
  proof -
    have "(2 * S + n) mod (2 * n) < 2 * n" using n(1) by simp
    moreover have "2 * S + n = k * (2 * n) + (2 * S + n) mod (2 * n)" unfolding k_def
      by (rule div_mult_mod_eq[symmetric])
    ultimately show ?thesis by (simp add: algebra_simps)
  qed
  have k255: "k \<le> 255"
  proof -
    have "2 * S + n < 256 * (2 * n)" using S n by simp
    then have "(2 * S + n) div (2 * n) < 256" using n(1) by (simp add: less_mult_imp_div_less)
    then show ?thesis by (simp add: k_def)
  qed
  have xlo: "of_nat k - 1 / 2 \<le> x"
  proof -
    have "(of_nat (k * (2 * n)) :: rat) \<le> of_nat (2 * S + n)" using k1 by (simp only: of_nat_le_iff)
    then have "(of_nat k * 2 - 1) * (of_nat n :: rat) \<le> 2 * of_nat S" by (simp add: algebra_simps)
    then have "(of_nat k * 2 - 1) \<le> 2 * of_nat S / (of_nat n :: rat)"
      using npos by (simp add: pos_le_divide_eq)
    then show ?thesis by (simp add: x_def)
  qed
  have xhi: "x \<le> of_nat k + 1 / 2 - 1 / (2 * of_nat n)"
  proof -
    have "2 * S + n + 1 \<le> (k + 1) * (2 * n)" using k2 by simp
    then have "(of_nat (2 * S + n + 1) :: rat) \<le> of_nat ((k + 1) * (2 * n))" by (simp only: of_nat_le_iff)
    then have "2 * of_nat S \<le> (2 * of_nat k + 1) * (of_nat n :: rat) - 1" by (simp add: algebra_simps)
    then have "2 * of_nat S / (of_nat n :: rat) \<le> ((2 * of_nat k + 1) * of_nat n - 1) / of_nat n"
      using npos by (simp add: divide_right_mono)
    also have "\<dots> = 2 * of_nat k + 1 - 1 / of_nat n" using npos by (simp add: field_simps)
    finally show ?thesis by (simp add: x_def field_simps)
  qed
  have qlo: "of_nat k - 1 / 2 \<le> q"
  proof (cases "k = 0")
    case True
    have "0 \<le> q" unfolding q_def by (rule fl_nonneg[OF x0]) simp
    then show ?thesis using True by simp
  next
    case False
    have m: "0 \<le> 2 * int k - 1" "2 * int k - 1 < 2 ^ 24" using False k255 by simp_all
    have e: "(of_int (2 * int k - 1) :: rat) * 2 powi (- 1) = of_nat k - 1 / 2"
      by (simp add: power_int_minus field_simps)
    have "fl_round 24 (of_nat k - 1 / 2) = of_nat k - 1 / 2"
      using fl_exact_int[OF m, of "- 1"] unfolding e .
    moreover have "fl_round 24 (of_nat k - 1 / 2) \<le> fl_round 24 x"
    proof (rule fl_mono[OF _ xlo])
      show "(0::rat) \<le> of_nat k - 1 / 2" using False by (simp add: e[symmetric])
    qed simp
    ultimately show ?thesis by (simp add: q_def)
  qed
  have x256: "x < 2 powi 8"
  proof -
    have "0 \<le> 1 / (2 * (of_nat n :: rat))" by simp
    then have "x \<le> of_nat k + 1 / 2" using xhi by linarith
    moreover have "(of_nat k :: rat) \<le> of_nat 255" using k255 by (simp only: of_nat_le_iff)
    ultimately show ?thesis by simp
  qed
  have "q \<le> x + 2 powi (8 - 1 - 24)" unfolding q_def
    using fl_err_below[OF x0 x256, of 24] by simp
  then have qx: "q \<le> x + 1 / 131072" by (simp add: power_int_minus)
  have nn: "1 / (2 * (of_nat n :: rat)) \<ge> 1 / 131070"
  proof -
    have "n \<le> 65535" using n(2) by simp
    then have "(of_nat n :: rat) \<le> of_nat 65535" by (simp only: of_nat_le_iff)
    then have "2 * (of_nat n :: rat) \<le> 131070" by simp
    then show ?thesis using npos by (intro divide_left_mono) simp_all
  qed
  have qhi: "q + 1 / 2 \<le> of_nat k + 1 - 2 powi (- 33)"
  proof -
    have "(2::rat) powi (- 33) \<le> 1 / 131070 - 1 / 131072" by (simp add: power_int_minus)
    with qx xhi nn show ?thesis by linarith
  qed
  have vhi: "v \<le> of_nat k + 1 - 2 powi (- 33)"
  proof -
    have m: "0 \<le> (int k + 1) * 2 ^ 33 - 1" "(int k + 1) * 2 ^ 33 - 1 < 2 ^ 53" using k255 by simp_all
    have e: "(of_int ((int k + 1) * 2 ^ 33 - 1) :: rat) * 2 powi (- 33) = of_nat k + 1 - 2 powi (- 33)"
      by (simp add: power_int_minus field_simps)
    have ex: "fl_round 53 (of_nat k + 1 - 2 powi (- 33)) = of_nat k + 1 - 2 powi (- 33)"
      using fl_exact_int[OF m, of "- 33"] unfolding e .
    have "0 \<le> q" unfolding q_def by (rule fl_nonneg[OF x0]) simp
    then have "0 \<le> q + 1 / 2" by simp
    from fl_mono[OF this qhi, of 53] show ?thesis unfolding v_def ex by simp
  qed
  have vlo: "of_nat k \<le> v"
  proof -
    have m: "0 \<le> int k" "int k < 2 ^ 53" using k255 by simp_all
    have ex: "fl_round 53 (of_nat k) = of_nat k" using fl_exact_int[OF m, of 0] by simp
    have "(of_nat k :: rat) \<le> q + 1 / 2" using qlo by simp
    from fl_mono[OF _ this, of 53] show ?thesis unfolding v_def ex by simp
  qed
  have "(0::rat) < 2 powi (- 33)" by simp
  then have "v < of_nat k + 1" using vhi by linarith
  with vlo have "\<lfloor>v\<rfloor> = int k" by (simp add: floor_unique)
  then show ?thesis unfolding v_def q_def x_def k_def flS fln .
qed

lemma fl_exact_quarters:
  fixes m :: nat
  assumes "m < 2 ^ p"
  shows "fl_round p (of_nat m / 4) = of_nat m / 4"
proof -
  have "int m < int (2 ^ p)" using assms by (simp only: of_nat_less_iff)
  then have m: "0 \<le> int m" "int m < 2 ^ p" by simp_all
  have e: "(of_int (int m) :: rat) * 2 powi (- 2) = of_nat m / 4"
    by (simp add: power_int_minus)
  show ?thesis using fl_exact_int[OF m, of "- 2"] unfolding e .
qed

lemma fl_between_quarters:
  fixes lo hi :: nat
  assumes "of_nat lo / 4 \<le> x" "x \<le> of_nat hi / 4" "lo < 2 ^ p" "hi < 2 ^ p" "0 < p"
  shows "of_nat lo / 4 \<le> fl_round p x" "fl_round p x \<le> of_nat hi / 4"
proof -
  have l0: "(0::rat) \<le> of_nat lo / 4" by simp
  have x0: "0 \<le> x" using assms(1) l0 by linarith
  from fl_mono[OF l0 assms(1) assms(5)] show "of_nat lo / 4 \<le> fl_round p x"
    by (simp only: fl_exact_quarters[OF assms(3)])
  from fl_mono[OF x0 assms(2) assms(5)] show "fl_round p x \<le> of_nat hi / 4"
    by (simp only: fl_exact_quarters[OF assms(4)])
qed

lemma round_mean_uniform:
  fixes c n :: nat
  assumes n: "0 < n" and c: "c \<le> 255"
  shows "\<lfloor>fl_round 53 (fl_round 24 (fl_round 24 (of_nat (c * n)) / fl_round 24 (of_nat n)) + 1 / 2)\<rfloor>
           = int c"
proof (cases "c = 0")
  case True
  have "fl_round 53 (of_nat 2 / 4) = of_nat 2 / 4" by (rule fl_exact_quarters) simp
  then have h: "fl_round 53 (1 / 2) = 1 / 2" by simp
  have "\<lfloor>(1::rat) / 2\<rfloor> = 0" by (simp add: floor_eq_iff)
  then show ?thesis using True by (simp add: h)
next
  case False
  define eps :: rat where "eps = 2 powi (- 24)"
  define N :: rat where "N = of_nat n"
  define C :: rat where "C = of_nat c"
  define a where "a = fl_round 24 (of_nat (c * n))"
  define b where "b = fl_round 24 (of_nat n)"
  define q where "q = fl_round 24 (a / b)"
  define v where "v = fl_round 53 (q + 1 / 2)"
  have eps: "eps = 1 / 16777216" by (simp add: eps_def power_int_minus)
  have Npos: "0 < N" using n by (simp add: N_def)
  have C1: "1 \<le> C" using False unfolding C_def by (metis One_nat_def Suc_leI not_gr_zero of_nat_1 of_nat_le_iff)
  have C255: "C \<le> 255"
  proof -
    have "(of_nat c :: rat) \<le> of_nat 255" using c by (simp only: of_nat_le_iff)
    then show ?thesis by (simp add: C_def)
  qed
  have CN: "(of_nat (c * n) :: rat) = C * N" by (simp add: C_def N_def)
  have CNpos: "0 < C * N" using C1 Npos by simp
  have "\<bar>a - C * N\<bar> \<le> C * N * eps"
    unfolding a_def CN eps_def using fl_rel_err[OF CNpos, of 24] by simp
  then have a_hi: "a \<le> C * N * (1 + eps)" and a_lo: "C * N * (1 - eps) \<le> a"
    by (simp_all add: algebra_simps abs_le_iff)
  have "\<bar>b - N\<bar> \<le> N * eps"
    unfolding b_def N_def[symmetric] eps_def using fl_rel_err[OF Npos, of 24] by simp
  then have b_hi: "b \<le> N * (1 + eps)" and b_lo: "N * (1 - eps) \<le> b"
    by (simp_all add: algebra_simps abs_le_iff)
  have bpos: "0 < b"
  proof -
    have "0 < N * (1 - eps)" using Npos by (simp add: eps)
    with b_lo show ?thesis by linarith
  qed
  have up: "a / b \<le> C + 1 / 4"
  proof -
    have "C * (1 + eps) \<le> (C + 1 / 4) * (1 - eps)" using C255 C1 by (simp add: eps algebra_simps)
    then have "C * (1 + eps) * N \<le> (C + 1 / 4) * (1 - eps) * N"
      using Npos by (intro mult_right_mono) simp_all
    then have "a \<le> (C + 1 / 4) * (N * (1 - eps))" using a_hi by (simp add: mult_ac)
    also have "\<dots> \<le> (C + 1 / 4) * b" using b_lo C1 by (intro mult_left_mono) simp_all
    finally show ?thesis using bpos by (simp add: pos_divide_le_eq)
  qed
  have dn: "C - 1 / 4 \<le> a / b"
  proof -
    have "(C - 1 / 4) * (1 + eps) \<le> C * (1 - eps)" using C255 C1 by (simp add: eps algebra_simps)
    then have "(C - 1 / 4) * (1 + eps) * N \<le> C * (1 - eps) * N"
      using Npos by (intro mult_right_mono) simp_all
    then have le: "(C - 1 / 4) * (N * (1 + eps)) \<le> a" using a_lo by (simp add: mult_ac)
    have "(C - 1 / 4) * b \<le> (C - 1 / 4) * (N * (1 + eps))"
      using b_hi C1 by (intro mult_left_mono) simp_all
    with le have "(C - 1 / 4) * b \<le> a" by linarith
    then show ?thesis using bpos by (simp add: pos_le_divide_eq)
  qed
  have c0: "0 < c" using False by simp
  have lo_eq: "(of_nat (4 * c - 1) :: rat) / 4 = C - 1 / 4"
    using c0 by (simp add: C_def of_nat_diff)
  have hi_eq: "(of_nat (4 * c + 1) :: rat) / 4 = C + 1 / 4" by (simp add: C_def)
  have lt24: "4 * c - 1 < 2 ^ 24" "4 * c + 1 < 2 ^ 24" using c by simp_all
  have ql: "C - 1 / 4 \<le> q" and qh: "q \<le> C + 1 / 4"
    using fl_between_quarters[of "4 * c - 1" "a / b" "4 * c + 1" 24] dn up lt24
    unfolding lo_eq hi_eq q_def by simp_all
  have lo2: "(of_nat (4 * c + 1) :: rat) / 4 = C + 1 / 4" by (simp add: C_def)
  have hi2: "(of_nat (4 * c + 3) :: rat) / 4 = C + 3 / 4" by (simp add: C_def)
  have lt53: "4 * c + 1 < 2 ^ 53" "4 * c + 3 < 2 ^ 53" using c by simp_all
  have a1: "of_nat (4 * c + 1) / 4 \<le> q + 1 / 2" unfolding lo2 using ql by simp
  have a2: "q + 1 / 2 \<le> of_nat (4 * c + 3) / 4" unfolding hi2 using qh by simp
  have vl: "C + 1 / 4 \<le> v" and vh: "v \<le> C + 3 / 4"
    using fl_between_quarters[OF a1 a2 lt53] unfolding lo2 hi2 v_def by simp_all
  have "of_int (int c) \<le> v" "v < of_int (int c) + 1" using vl vh by (simp_all add: C_def)
  then have "\<lfloor>v\<rfloor> = int c" by (rule floor_unique)
  then show ?thesis unfolding v_def q_def a_def b_def .
qed

section \<open>The kernel, pixel by pixel\<close>

text \<open>
  The nested loops are a fold of \<open>store_pixel\<close> over the iteration space. Each iteration
  writes its own index, so after any sequence of iterations an index holds the smoothed pixel
  if some iteration wrote it and its old contents otherwise.
\<close>

lemma fold_nested_concat:
  "fold (\<lambda>i. fold (\<lambda>j. f (i, j)) ys) xs = fold f (concat (map (\<lambda>i. map (Pair i) ys) xs))"
proof (induction xs)
  case Nil
  then show ?case by simp
next
  case (Cons x xs)
  have "fold (\<lambda>j. f (x, j)) ys = fold f (map (Pair x) ys)"
    by (simp add: fold_map comp_def)
  with Cons show ?case by simp
qed

lemma kernel_as_iterations:
  "processImageSmoothFilter bmp width height radius result =
     fold (store_pixel bmp width height radius) (iterations width height) result"
  unfolding processImageSmoothFilter_def iterations_def
  by (simp only: fold_nested_concat)

lemma unat_position:
  fixes i j width :: size_t
  assumes "unat i < h" "unat j < unat width" "unat width * h < 2 ^ 64"
  shows "unat (i * width + j) = unat i * unat width + unat j"
proof -
  have "unat i * unat width + unat j < (unat i + 1) * unat width" using assms(2) by simp
  also have "\<dots> \<le> h * unat width" using assms(1) by (intro mult_right_mono) auto
  finally have lt: "unat i * unat width + unat j < 2 ^ 64" using assms(3) by (simp add: mult.commute)
  then have "unat i * unat width < 2 ^ 64" by simp
  then have "unat (i * width) = unat i * unat width"
    by (simp add: unat_word_ariths)
  then show ?thesis using lt by (simp add: unat_word_ariths)
qed

lemma fold_store_length [simp]:
  "length (fold (store_pixel bmp width height radius) its result) = length result"
  by (induction its arbitrary: result) (auto simp: store_pixel_def Let_def)

lemma fold_store_nth:
  assumes "\<forall>ij \<in> set its. unat (fst ij) < unat height \<and> unat (snd ij) < unat width"
    and "unat width * unat height < 2 ^ 64"
    and "p < length result"
  shows "fold (store_pixel bmp width height radius) its result ! p =
     (if p \<in> pos_of width ` set its
      then smooth_pixel bmp width height radius (of_nat (p div unat width)) (of_nat (p mod unat width))
      else result ! p)"
  using assms(1,3)
proof (induction its arbitrary: result)
  case Nil
  then show ?case by simp
next
  case (Cons ij its)
  obtain i j where ij: "ij = (i, j)" by (cases ij)
  have rng: "unat i < unat height" "unat j < unat width" using Cons.prems(1) ij by auto
  have pos: "unat (i * width + j) = pos_of width ij"
    using unat_position[OF rng assms(2)] by (simp add: pos_of_def ij)
  define result' where "result' = store_pixel bmp width height radius ij result"
  have r': "result' = result[pos_of width ij := smooth_pixel bmp width height radius i j]"
    by (simp add: result'_def store_pixel_def ij Let_def pos[unfolded ij])
  have len: "p < length result'" using Cons.prems(2) by (simp add: r')
  have IH: "fold (store_pixel bmp width height radius) its result' ! p =
     (if p \<in> pos_of width ` set its
      then smooth_pixel bmp width height radius (of_nat (p div unat width)) (of_nat (p mod unat width))
      else result' ! p)"
    using Cons.IH[OF _ len] Cons.prems(1) by simp
  have here: "smooth_pixel bmp width height radius (of_nat (p div unat width)) (of_nat (p mod unat width))
      = smooth_pixel bmp width height radius i j" if "p = pos_of width ij"
  proof -
    have "p div unat width = unat i" "p mod unat width = unat j"
      using that rng(2) by (simp_all add: pos_of_def ij)
    then show ?thesis by simp
  qed
  show ?case
  proof (cases "p = pos_of width ij")
    case True
    then show ?thesis using IH here Cons.prems(2) by (simp add: result'_def[symmetric] r')
  next
    case False
    then show ?thesis using IH by (simp add: result'_def[symmetric] r')
  qed
qed

lemma unat_of_nat_below:
  fixes n :: size_t
  assumes "k < unat n"
  shows "unat (of_nat k :: size_t) = k"
  using le_unat_uoi[of k n] assms by simp

lemma set_for_below: "set (for_below n) = {i. i < n}"
proof -
  have "(of_nat ` {0..<unat n} :: size_t set) = {i. i < n}"
  proof (intro set_eqI iffI)
    fix x :: size_t assume "x \<in> of_nat ` {0..<unat n}"
    then obtain k where k: "k < unat n" "x = of_nat k" by auto
    then have "unat x = k" using unat_of_nat_below by simp
    then show "x \<in> {i. i < n}" using k by (simp add: word_less_nat_alt)
  next
    fix x :: size_t assume "x \<in> {i. i < n}"
    then have "unat x < unat n" by (simp add: word_less_nat_alt)
    then have "x = of_nat (unat x)" "unat x \<in> {0..<unat n}" by simp_all
    then show "x \<in> of_nat ` {0..<unat n}" by (rule image_eqI)
  qed
  then show ?thesis by (simp add: for_below_def)
qed

lemma set_iterations: "set (iterations width height) = {(i, j). i < height \<and> j < width}"
  by (auto simp: iterations_def set_for_below)

lemma kernel_length [simp]:
  "length (processImageSmoothFilter bmp width height radius result) = length result"
  by (simp add: kernel_as_iterations)

lemma kernel_nth:
  assumes "unat width * unat height < 2 ^ 64" "length result = unat width * unat height" "p < length result"
  shows "processImageSmoothFilter bmp width height radius result ! p =
     smooth_pixel bmp width height radius (of_nat (p div unat width)) (of_nat (p mod unat width))"
proof -
  have wpos: "0 < unat width" using assms by (cases "unat width") auto
  have rng: "\<forall>ij \<in> set (iterations width height). unat (fst ij) < unat height \<and> unat (snd ij) < unat width"
    by (auto simp: set_iterations word_less_nat_alt)
  define i :: size_t where "i = of_nat (p div unat width)"
  define j :: size_t where "j = of_nat (p mod unat width)"
  have pd: "p div unat width < unat height"
    using assms(2,3) wpos by (simp add: less_mult_imp_div_less mult.commute)
  have pm: "p mod unat width < unat width" using wpos by simp
  have ui: "unat i = p div unat width" unfolding i_def
    using pd by (rule unat_of_nat_below)
  have uj: "unat j = p mod unat width" unfolding j_def
    using pm by (rule unat_of_nat_below)
  have "(i, j) \<in> set (iterations width height)"
    using pd pm ui uj by (simp add: set_iterations word_less_nat_alt)
  moreover have "pos_of width (i, j) = p" by (simp add: pos_of_def ui uj)
  ultimately have "p \<in> pos_of width ` set (iterations width height)" by force
  then show ?thesis
    unfolding kernel_as_iterations using fold_store_nth[OF rng assms(1,3)] by simp
qed

subsection \<open>The window loops compute the window's channel sums modulo \<open>2\<^sup>3\<^sup>2\<close>\<close>

lemma ucast_uchar: "(ucast (x :: uchar) :: uint) = of_nat (unat x)"
  by simp

lemma inner_fold:
  fixes ii width :: size_t
  assumes "unat ii < H" "unat width * H < 2 ^ 64" "\<forall>k \<in> set ks. k < unat width"
  shows "fold (accumulate bmp width ii) (map of_nat ks) (r0, g0, b0)
         = (r0 + of_nat (\<Sum>k\<leftarrow>ks. unat (chan_r (bmp ! (unat ii * unat width + k)))),
            g0 + of_nat (\<Sum>k\<leftarrow>ks. unat (chan_g (bmp ! (unat ii * unat width + k)))),
            b0 + of_nat (\<Sum>k\<leftarrow>ks. unat (chan_b (bmp ! (unat ii * unat width + k)))))"
  using assms(3)
proof (induction ks arbitrary: r0 g0 b0)
  case Nil
  then show ?case by simp
next
  case (Cons k ks)
  have kw: "k < unat width" using Cons.prems by simp
  have uk: "unat (of_nat k :: size_t) = k" using kw by (rule unat_of_nat_below)
  have pos: "unat (ii * width + of_nat k) = unat ii * unat width + k"
    using unat_position[OF assms(1) _ assms(2), of "of_nat k"] kw uk by simp
  have rest: "\<forall>k \<in> set ks. k < unat width" using Cons.prems by simp
  have step: "accumulate bmp width ii (of_nat k) (r0, g0, b0) =
      (r0 + of_nat (unat (chan_r (bmp ! (unat ii * unat width + k)))),
       g0 + of_nat (unat (chan_g (bmp ! (unat ii * unat width + k)))),
       b0 + of_nat (unat (chan_b (bmp ! (unat ii * unat width + k)))))"
    by (simp add: accumulate_def Let_def pos)
  show ?case
    by (simp add: step Cons.IH[OF rest] add.assoc del: of_nat_unat unsigned_of_nat)
qed

lemma outer_fold:
  fixes width :: size_t
  assumes "unat width * H < 2 ^ 64" "\<forall>k \<in> set ks. k < unat width" "\<forall>i \<in> set is. i < H" "H < 2 ^ 64"
  shows "fold (\<lambda>ii. fold (accumulate bmp width ii) (map of_nat ks)) (map of_nat is) (r0, g0, b0)
         = (r0 + of_nat (\<Sum>i\<leftarrow>is. \<Sum>k\<leftarrow>ks. unat (chan_r (bmp ! (i * unat width + k)))),
            g0 + of_nat (\<Sum>i\<leftarrow>is. \<Sum>k\<leftarrow>ks. unat (chan_g (bmp ! (i * unat width + k)))),
            b0 + of_nat (\<Sum>i\<leftarrow>is. \<Sum>k\<leftarrow>ks. unat (chan_b (bmp ! (i * unat width + k)))))"
  using assms(3)
proof (induction "is" arbitrary: r0 g0 b0)
  case Nil
  then show ?case by simp
next
  case (Cons i "is")
  have iH: "i < H" using Cons.prems by simp
  have ui: "unat (of_nat i :: size_t) = i"
    using iH assms(4) by (simp add: unat_of_nat take_bit_nat_eq_self)
  have rest: "\<forall>i \<in> set is. i < H" using Cons.prems by simp
  have inner: "fold (accumulate bmp width (of_nat i)) (map of_nat ks) (r0, g0, b0)
         = (r0 + of_nat (\<Sum>k\<leftarrow>ks. unat (chan_r (bmp ! (i * unat width + k)))),
            g0 + of_nat (\<Sum>k\<leftarrow>ks. unat (chan_g (bmp ! (i * unat width + k)))),
            b0 + of_nat (\<Sum>k\<leftarrow>ks. unat (chan_b (bmp ! (i * unat width + k)))))"
    using inner_fold[of "of_nat i" H width ks bmp r0 g0 b0] iH ui assms(1,2) by simp
  show ?case
    by (simp add: inner Cons.IH[OF rest] del: of_nat_unat unsigned_of_nat)
qed

lemma window_sums_nat:
  fixes width :: size_t
  assumes "unat endi < H" "unat endj < unat width" "unat width * H < 2 ^ 64" "H < 2 ^ 64"
  shows "window_sums bmp width starti endi startj endj =
     (of_nat (window_total chan_r bmp (unat width) (unat starti) (unat endi) (unat startj) (unat endj)),
      of_nat (window_total chan_g bmp (unat width) (unat starti) (unat endi) (unat startj) (unat endj)),
      of_nat (window_total chan_b bmp (unat width) (unat starti) (unat endi) (unat startj) (unat endj)))"
proof -
  have a: "\<forall>k \<in> set [unat startj ..< Suc (unat endj)]. k < unat width" using assms(2) by auto
  have b: "\<forall>i \<in> set [unat starti ..< Suc (unat endi)]. i < H" using assms(1) by auto
  show ?thesis
    unfolding window_sums_def for_upto_def window_total_def
    using outer_fold[OF assms(3) a b assms(4), of bmp 0 0 0] by simp
qed

subsection \<open>Window bounds\<close>

lemma smooth_pixel_win:
  "smooth_pixel bmp width height radius i j =
     (let starti = win_start i radius; endi = win_end i radius height;
          startj = win_start j radius; endj = win_end j radius width;
          count = (endi - starti + 1) * (endj - startj + 1);
          (r, g, b) = window_sums bmp width starti endi startj endj
      in \<lparr>chan_b = channel_mean b count, chan_g = channel_mean g count, chan_r = channel_mean r count\<rparr>)"
  by (simp add: smooth_pixel_def win_start_def win_end_def)

lemma win_end_less:
  assumes "i < n"
  shows "unat (win_end i radius n) < unat n"
proof -
  have n0: "n \<noteq> 0" using assms by auto
  show ?thesis
  proof (cases "i + radius \<ge> n")
    case True
    then show ?thesis using n0 by (simp add: win_end_def unat_minus_one unat_gt_0)
  next
    case False
    then show ?thesis by (simp add: win_end_def word_less_nat_alt word_le_nat_alt)
  qed
qed

lemma win_start_le_end:
  assumes "i < n" "2 * unat n \<le> 2 ^ 64"
  shows "unat (win_start i radius) \<le> unat (win_end i radius n)"
proof (cases "i < radius")
  case True
  then show ?thesis by (simp add: win_start_def)
next
  case False
  then have ri: "radius \<le> i" by simp
  then have uri: "unat radius \<le> unat i" by (simp add: word_le_nat_alt)
  have uin: "unat i < unat n" using assms(1) by (simp add: word_less_nat_alt)
  have s: "unat (win_start i radius) = unat i - unat radius"
    using False ri by (simp add: win_start_def unat_sub)
  have "unat i + unat radius < 2 ^ 64" using uri uin assms(2) by simp
  then have add: "unat (i + radius) = unat i + unat radius"
    using unat_add_lem[of i radius] by simp
  have n0: "n \<noteq> 0" using assms by auto
  show ?thesis
  proof (cases "i + radius \<ge> n")
    case True
    then have "unat (win_end i radius n) = unat n - 1" using n0 by (simp add: win_end_def unat_minus_one)
    then show ?thesis using s uin by simp
  next
    case False
    then have "unat (win_end i radius n) = unat i + unat radius" by (simp add: win_end_def add)
    then show ?thesis using s by simp
  qed
qed

lemma win_start_nat: "unat (win_start i radius) = unat i - unat radius"
proof (cases "i < radius")
  case True
  then show ?thesis by (simp add: win_start_def word_less_nat_alt)
next
  case False
  then have "radius \<le> i" by simp
  then show ?thesis using False by (simp add: win_start_def unat_sub)
qed

lemma win_end_nat:
  assumes "i < n" "unat i + unat radius < 2 ^ 64"
  shows "unat (win_end i radius n) = min (unat n - 1) (unat i + unat radius)"
proof -
  have add: "unat (i + radius) = unat i + unat radius"
    using unat_add_lem[of i radius] assms(2) by simp
  have n0: "n \<noteq> 0" using assms by auto
  show ?thesis
  proof (cases "i + radius \<ge> n")
    case True
    then have "unat n \<le> unat i + unat radius" by (simp add: word_le_nat_alt add)
    then have "min (unat n - 1) (unat i + unat radius) = unat n - 1" by simp
    moreover have "unat (win_end i radius n) = unat n - 1"
      using True n0 by (simp add: win_end_def unat_minus_one)
    ultimately show ?thesis by simp
  next
    case False
    then have "unat i + unat radius < unat n" by (simp add: word_le_nat_alt add)
    then have "min (unat n - 1) (unat i + unat radius) = unat i + unat radius" by simp
    moreover have "unat (win_end i radius n) = unat i + unat radius"
      using False by (simp add: win_end_def add)
    ultimately show ?thesis by simp
  qed
qed

lemma win_extent:
  assumes "i < n" "2 * unat n \<le> 2 ^ 64"
  shows "unat (win_end i radius n - win_start i radius + 1) =
           unat (win_end i radius n) - unat (win_start i radius) + 1"
    and "unat (win_end i radius n) - unat (win_start i radius) + 1 \<le> unat n"
proof -
  have le: "unat (win_start i radius) \<le> unat (win_end i radius n)"
    by (rule win_start_le_end[OF assms])
  have lt: "unat (win_end i radius n) < unat n" by (rule win_end_less[OF assms(1)])
  show b: "unat (win_end i radius n) - unat (win_start i radius) + 1 \<le> unat n" using le lt by simp
  have sub: "unat (win_end i radius n - win_start i radius) =
      unat (win_end i radius n) - unat (win_start i radius)"
    using le by (simp add: unat_sub word_le_nat_alt)
  have "unat n < 2 ^ 64" using unsigned_less[of n] by simp
  then have "unat (win_end i radius n - win_start i radius) + unat (1 :: size_t) < 2 ^ 64"
    using b sub by simp
  then have "unat (win_end i radius n - win_start i radius + 1) =
      unat (win_end i radius n - win_start i radius) + unat (1 :: size_t)"
    using unat_add_lem[of "win_end i radius n - win_start i radius" 1] by simp
  then show "unat (win_end i radius n - win_start i radius + 1) =
           unat (win_end i radius n) - unat (win_start i radius) + 1"
    using sub by simp
qed

lemma dims_small:
  fixes i height j width :: size_t
  assumes "i < height" "j < width" "3 * (unat width * unat height) < 2 ^ 64"
  shows "2 * unat height \<le> 2 ^ 64" "2 * unat width \<le> 2 ^ 64" "unat width * unat height < 2 ^ 64"
proof -
  have h: "0 < unat height" and w: "0 < unat width"
    using assms(1,2) by (simp_all add: word_less_nat_alt)
  have "unat height \<le> unat width * unat height" using w by simp
  then show "2 * unat height \<le> 2 ^ 64" using assms(3) by arith
  have "unat width \<le> unat width * unat height" using h by simp
  then show "2 * unat width \<le> 2 ^ 64" using assms(3) by arith
  show "unat width * unat height < 2 ^ 64" using assms(3) by simp
qed

lemma smooth_pixel_nat:
  fixes i height j width :: size_t
  assumes "i < height" "j < width" "3 * (unat width * unat height) < 2 ^ 64"
  shows "smooth_pixel bmp width height radius i j =
     (let i0 = unat (win_start i radius); i1 = unat (win_end i radius height);
          j0 = unat (win_start j radius); j1 = unat (win_end j radius width);
          n = (i1 - i0 + 1) * (j1 - j0 + 1)
      in \<lparr>chan_b = channel_mean (of_nat (window_total chan_b bmp (unat width) i0 i1 j0 j1)) (of_nat n),
          chan_g = channel_mean (of_nat (window_total chan_g bmp (unat width) i0 i1 j0 j1)) (of_nat n),
          chan_r = channel_mean (of_nat (window_total chan_r bmp (unat width) i0 i1 j0 j1)) (of_nat n)\<rparr>)"
proof -
  note d = dims_small[OF assms]
  define a where "a = unat (win_end i radius height) - unat (win_start i radius) + 1"
  define b where "b = unat (win_end j radius width) - unat (win_start j radius) + 1"
  have ua: "unat (win_end i radius height - win_start i radius + 1) = a" and aH: "a \<le> unat height"
    using win_extent[OF assms(1) d(1), of radius] by (simp_all add: a_def)
  have ub: "unat (win_end j radius width - win_start j radius + 1) = b" and bW: "b \<le> unat width"
    using win_extent[OF assms(2) d(2), of radius] by (simp_all add: b_def)
  have count: "(win_end i radius height - win_start i radius + 1) *
                   (win_end j radius width - win_start j radius + 1) = of_nat (a * b)"
    using word_arith_nat_mult[of "win_end i radius height - win_start i radius + 1"
                                 "win_end j radius width - win_start j radius + 1"]
    by (simp only: ua ub)
  have hlt: "unat height < 2 ^ 64" using unsigned_less[of height] by simp
  have sums: "window_sums bmp width (win_start i radius) (win_end i radius height)
        (win_start j radius) (win_end j radius width) =
     (of_nat (window_total chan_r bmp (unat width) (unat (win_start i radius)) (unat (win_end i radius height))
                (unat (win_start j radius)) (unat (win_end j radius width))),
      of_nat (window_total chan_g bmp (unat width) (unat (win_start i radius)) (unat (win_end i radius height))
                (unat (win_start j radius)) (unat (win_end j radius width))),
      of_nat (window_total chan_b bmp (unat width) (unat (win_start i radius)) (unat (win_end i radius height))
                (unat (win_start j radius)) (unat (win_end j radius width))))"
    by (rule window_sums_nat[OF win_end_less[OF assms(1)] win_end_less[OF assms(2)] d(3) hlt])
  show ?thesis
    unfolding smooth_pixel_win Let_def count sums a_def b_def by simp
qed

lemma window_total_le:
  "window_total ch bmp W i0 i1 j0 j1 \<le> 255 * ((Suc i1 - i0) * (Suc j1 - j0))"
proof -
  have u: "\<And>x :: uchar. unat x \<le> 255"
  proof -
    fix x :: uchar
    have "unat x < 2 ^ 8" using unsigned_less[of x] by simp
    then show "unat x \<le> 255" by simp
  qed
  have inner: "\<And>ii. (\<Sum>jj\<leftarrow>[j0 ..< Suc j1]. unat (ch (bmp ! (ii * W + jj)))) \<le> 255 * (Suc j1 - j0)"
  proof -
    fix ii
    have "(\<Sum>jj\<leftarrow>[j0 ..< Suc j1]. unat (ch (bmp ! (ii * W + jj)))) \<le> (\<Sum>jj\<leftarrow>[j0 ..< Suc j1]. 255)"
      by (rule sum_list_mono) (rule u)
    also have "\<dots> = 255 * (Suc j1 - j0)" by (simp add: sum_list_triv Suc_diff_le)
    finally show "(\<Sum>jj\<leftarrow>[j0 ..< Suc j1]. unat (ch (bmp ! (ii * W + jj)))) \<le> 255 * (Suc j1 - j0)" .
  qed
  have "window_total ch bmp W i0 i1 j0 j1 \<le> (\<Sum>ii\<leftarrow>[i0 ..< Suc i1]. 255 * (Suc j1 - j0))"
    unfolding window_total_def by (rule sum_list_mono) (rule inner)
  also have "\<dots> = 255 * ((Suc i1 - i0) * (Suc j1 - j0))" by (simp add: sum_list_triv Suc_diff_le)
  finally show ?thesis .
qed

subsection \<open>The mean of a window\<close>

lemma unat_of_nat_uint: "S < 2 ^ 32 \<Longrightarrow> unat (of_nat S :: uint) = S"
  by (simp add: unat_of_nat)

lemma unat_of_nat_size_t: "n < 2 ^ 64 \<Longrightarrow> unat (of_nat n :: size_t) = n"
  by (simp add: unat_of_nat)

lemma channel_mean_unfold:
  "channel_mean s count = word_of_int
     \<lfloor>fl_round 53 (fl_round 24 (fl_round 24 (of_nat (unat s)) / fl_round 24 (of_nat (unat count))) + 1 / 2)\<rfloor>"
  by (simp add: channel_mean_def ROUND_def uchar_of_double_def double_add_def float_div_def
      float_of_uint_def float_of_size_t_def)

lemma channel_mean_exact:
  fixes S n :: nat
  assumes "0 < n" "n < 65536" "S \<le> 255 * n"
  shows "channel_mean (of_nat S) (of_nat n) = of_nat ((2 * S + n) div (2 * n))"
proof -
  have S: "unat (of_nat S :: uint) = S" using assms by (intro unat_of_nat_uint) simp
  have n: "unat (of_nat n :: size_t) = n" using assms by (intro unat_of_nat_size_t) simp
  show ?thesis
    unfolding channel_mean_unfold S n round_mean_exact[OF assms] by simp
qed

lemma channel_mean_uniform:
  fixes c n :: nat
  assumes "0 < n" "c \<le> 255" "c * n < 2 ^ 32" "n < 2 ^ 64"
  shows "channel_mean (of_nat (c * n)) (of_nat n) = of_nat c"
proof -
  have S: "unat (of_nat (c * n) :: uint) = c * n" using assms(3) by (rule unat_of_nat_uint)
  have n: "unat (of_nat n :: size_t) = n" using assms(4) by (rule unat_of_nat_size_t)
  show ?thesis
    unfolding channel_mean_unfold S n round_mean_uniform[OF assms(1,2)] by simp
qed

lemma sum_list_const_upt:
  fixes f :: "nat \<Rightarrow> nat"
  assumes "\<And>k. a \<le> k \<Longrightarrow> k < b \<Longrightarrow> f k = c"
  shows "(\<Sum>k\<leftarrow>[a ..< b]. f k) = (b - a) * c"
proof -
  have m: "map f [a ..< b] = map (\<lambda>_. c) [a ..< b]" by (rule map_cong) (auto simp: assms)
  have "sum_list (map f [a ..< b]) = sum_list (map (\<lambda>_. c) [a ..< b])" by (simp only: m)
  also have "\<dots> = (b - a) * c" by (simp add: sum_list_triv)
  finally show ?thesis .
qed

lemma window_total_uniform:
  assumes "\<And>ii jj. i0 \<le> ii \<Longrightarrow> ii \<le> i1 \<Longrightarrow> j0 \<le> jj \<Longrightarrow> jj \<le> j1 \<Longrightarrow> bmp ! (ii * W + jj) = p"
  shows "window_total ch bmp W i0 i1 j0 j1 = unat (ch p) * ((Suc i1 - i0) * (Suc j1 - j0))"
proof -
  have inner: "(\<Sum>jj\<leftarrow>[j0 ..< Suc j1]. unat (ch (bmp ! (ii * W + jj)))) = (Suc j1 - j0) * unat (ch p)"
    if "i0 \<le> ii" "ii < Suc i1" for ii
  proof (rule sum_list_const_upt)
    fix k assume "j0 \<le> k" "k < Suc j1"
    then have "bmp ! (ii * W + k) = p" using that by (intro assms) simp_all
    then show "unat (ch (bmp ! (ii * W + k))) = unat (ch p)" by simp
  qed
  have "window_total ch bmp W i0 i1 j0 j1 = (Suc i1 - i0) * ((Suc j1 - j0) * unat (ch p))"
    unfolding window_total_def by (rule sum_list_const_upt) (rule inner)
  then show ?thesis by (simp add: mult_ac)
qed

lemma spec_round_mean_div:
  assumes "0 < n"
  shows "spec_round_mean S n = (2 * S + n) div (2 * n)"
proof -
  have "(of_nat S / of_nat n :: rat) + 1 / 2 = of_nat (2 * S + n) / of_nat (2 * n)"
    using assms by (simp add: field_simps)
  then have "\<lfloor>(of_nat S / of_nat n :: rat) + 1 / 2\<rfloor> = int ((2 * S + n) div (2 * n))"
    by (simp only: floor_divide_of_nat_eq)
  then show ?thesis by (simp add: spec_round_mean_def)
qed

lemma window_count_win:
  "window_count width height radius i j =
     (win_end i radius height - win_start i radius + 1) * (win_end j radius width - win_start j radius + 1)"
  by (simp add: window_count_def win_start_def win_end_def)

lemma unat_window_count:
  fixes i height j width :: size_t
  assumes "i < height" "j < width" "3 * (unat width * unat height) < 2 ^ 64"
  shows "unat (window_count width height radius i j) =
     (unat (win_end i radius height) - unat (win_start i radius) + 1) *
     (unat (win_end j radius width) - unat (win_start j radius) + 1)"
    and "0 < unat (window_count width height radius i j)"
    and "unat (window_count width height radius i j) \<le> unat width * unat height"
proof -
  note d = dims_small[OF assms]
  define a where "a = unat (win_end i radius height) - unat (win_start i radius) + 1"
  define b where "b = unat (win_end j radius width) - unat (win_start j radius) + 1"
  have ua: "unat (win_end i radius height - win_start i radius + 1) = a" and aH: "a \<le> unat height"
    using win_extent[OF assms(1) d(1), of radius] by (simp_all add: a_def)
  have ub: "unat (win_end j radius width - win_start j radius + 1) = b" and bW: "b \<le> unat width"
    using win_extent[OF assms(2) d(2), of radius] by (simp_all add: b_def)
  have le: "a * b \<le> unat width * unat height" using mult_le_mono[OF bW aH] by (simp add: mult.commute)
  then have "a * b < 2 ^ 64" using d(3) by simp
  then have u: "unat (window_count width height radius i j) = a * b"
    unfolding window_count_win
    using unat_mult_lem[of "win_end i radius height - win_start i radius + 1"
                           "win_end j radius width - win_start j radius + 1"] ua ub by simp
  then show "unat (window_count width height radius i j) =
     (unat (win_end i radius height) - unat (win_start i radius) + 1) *
     (unat (win_end j radius width) - unat (win_start j radius) + 1)" by (simp add: a_def b_def)
  show "0 < unat (window_count width height radius i j)" unfolding u by (simp add: a_def b_def)
  show "unat (window_count width height radius i j) \<le> unat width * unat height" unfolding u by (rule le)
qed

lemma smooth_pixel_count:
  fixes i height j width :: size_t
  assumes "i < height" "j < width" "3 * (unat width * unat height) < 2 ^ 64"
  shows "smooth_pixel bmp width height radius i j =
     (let i0 = unat (win_start i radius); i1 = unat (win_end i radius height);
          j0 = unat (win_start j radius); j1 = unat (win_end j radius width);
          n = unat (window_count width height radius i j)
      in \<lparr>chan_b = channel_mean (of_nat (window_total chan_b bmp (unat width) i0 i1 j0 j1)) (of_nat n),
          chan_g = channel_mean (of_nat (window_total chan_g bmp (unat width) i0 i1 j0 j1)) (of_nat n),
          chan_r = channel_mean (of_nat (window_total chan_r bmp (unat width) i0 i1 j0 j1)) (of_nat n)\<rparr>)"
  unfolding smooth_pixel_nat[OF assms] unat_window_count(1)[OF assms] Let_def ..

section \<open>The claims about the smoothing kernel\<close>

lemma pixel_index:
  fixes width height :: size_t
  assumes "p < unat width * unat height"
  shows "unat (of_nat (p div unat width) :: size_t) = p div unat width"
    and "unat (of_nat (p mod unat width) :: size_t) = p mod unat width"
    and "(of_nat (p div unat width) :: size_t) < height"
    and "(of_nat (p mod unat width) :: size_t) < width"
proof -
  have wpos: "0 < unat width" using assms by (cases "unat width") auto
  have pd: "p div unat width < unat height"
    using assms wpos by (simp add: less_mult_imp_div_less mult.commute)
  have pm: "p mod unat width < unat width" using wpos by simp
  show a: "unat (of_nat (p div unat width) :: size_t) = p div unat width"
    using pd by (rule unat_of_nat_below)
  show b: "unat (of_nat (p mod unat width) :: size_t) = p mod unat width"
    using pm by (rule unat_of_nat_below)
  show "(of_nat (p div unat width) :: size_t) < height" using pd a by (simp add: word_less_nat_alt)
  show "(of_nat (p mod unat width) :: size_t) < width" using pm b by (simp add: word_less_nat_alt)
qed

lemma kernel_pixel:
  fixes width height :: size_t
  assumes "length result = unat width * unat height" "unat width * unat height < 2 ^ 64"
    "i < unat height" "j < unat width"
  shows "processImageSmoothFilter bmp width height radius result ! (i * unat width + j) =
     smooth_pixel bmp width height radius (of_nat i) (of_nat j)"
proof -
  have "i * unat width + j < (i + 1) * unat width" using assms(4) by simp
  also have "\<dots> \<le> unat height * unat width" using assms(3) by (intro mult_right_mono) auto
  finally have p: "i * unat width + j < length result" using assms(1) by (simp add: mult.commute)
  have "(i * unat width + j) div unat width = i" "(i * unat width + j) mod unat width = j"
    using assms(4) by simp_all
  then show ?thesis using kernel_nth[OF assms(2,1) p, of bmp radius] by simp
qed

text \<open>
  \<^bold>\<open>C2\<close> (radius 0 is the identity). For every source buffer of dimensions
  \<open>width \<times> height\<close>, the kernel invoked with radius 0 returns a destination equal to the
  source, pixel for pixel: each window contains only its centre and the count is 1.
\<close>

theorem radius_zero_identity:
  fixes width height :: size_t
  assumes "length bmp = unat width * unat height"
    and "length result = unat width * unat height"
    and "3 * (unat width * unat height) < 2 ^ 64"
  shows "processImageSmoothFilter bmp width height 0 result = bmp"
proof (rule nth_equalityI)
  show "length (processImageSmoothFilter bmp width height 0 result) = length bmp"
    using assms by simp
next
  fix p assume "p < length (processImageSmoothFilter bmp width height 0 result)"
  then have p: "p < unat width * unat height" using assms(2) by simp
  define i :: size_t where "i = of_nat (p div unat width)"
  define j :: size_t where "j = of_nat (p mod unat width)"
  have ui: "unat i = p div unat width" and uj: "unat j = p mod unat width"
    and ih: "i < height" and jw: "j < width"
    using pixel_index[OF p] by (simp_all add: i_def j_def)
  have small: "unat width * unat height < 2 ^ 64" using assms(3) by simp
  have k: "processImageSmoothFilter bmp width height 0 result ! p = smooth_pixel bmp width height 0 i j"
    using kernel_nth[OF small assms(2), of p bmp 0] p assms(2) by (simp add: i_def j_def)
  have si: "win_start i 0 = i" "win_start j 0 = j" by (simp_all add: win_start_def)
  have ei: "win_end i 0 height = i" "win_end j 0 width = j"
    using ih jw by (auto simp: win_end_def)
  have cnt: "window_count width height 0 i j = 1" by (simp add: window_count_win si ei)
  have pos: "unat i * unat width + unat j = p" by (simp add: ui uj)
  have tot: "window_total ch bmp (unat width) (unat i) (unat i) (unat j) (unat j) = unat (ch (bmp ! p))" for ch
    by (simp add: window_total_def pos)
  have mean: "channel_mean (of_nat (unat x)) (of_nat 1) = x" for x :: uchar
  proof -
    have "unat x < 2 ^ 8" using unsigned_less[of x] by simp
    then have "unat x \<le> 255 * 1" by simp
    from channel_mean_exact[OF _ _ this] have "channel_mean (of_nat (unat x)) (of_nat 1) = of_nat ((2 * unat x + 1) div 2)"
      by simp
    also have "(2 * unat x + 1) div 2 = unat x" by simp
    finally show ?thesis by simp
  qed
  have "smooth_pixel bmp width height 0 i j = bmp ! p"
    unfolding smooth_pixel_count[OF ih jw assms(3)] Let_def si ei cnt tot
    using mean by simp
  with k show "processImageSmoothFilter bmp width height 0 result ! p = bmp ! p" by simp
qed

theorem radius_zero_identity_witness:
  "length [gray 10, gray 200] = unat (2 :: size_t) * unat (1 :: size_t) \<and>
   length [gray 0, gray 0] = unat (2 :: size_t) * unat (1 :: size_t) \<and>
   3 * (unat (2 :: size_t) * unat (1 :: size_t)) < (2 :: nat) ^ 64 \<and>
   processImageSmoothFilter [gray 10, gray 200] 2 1 0 [gray 0, gray 0] = [gray 10, gray 200]"
proof -
  have h1: "length [gray 10, gray 200] = unat (2 :: size_t) * unat (1 :: size_t)" by simp
  have h2: "length [gray 0, gray 0] = unat (2 :: size_t) * unat (1 :: size_t)" by simp
  have h3: "3 * (unat (2 :: size_t) * unat (1 :: size_t)) < (2 :: nat) ^ 64" by simp
  from radius_zero_identity[OF h1 h2 h3] h1 h2 h3 show ?thesis by blast
qed

lemma channel_mean_1_1: "channel_mean 1 1 = 1"
  using channel_mean_exact[of 1 1] by simp

lemma spec_window_lower: "nat (max 0 (int i - int r)) = i - r"
  by (simp add: max_def) linarith

text \<open>
  \<^bold>\<open>C1\<close> (window mean, as amended). Let the radius be such that \<open>i + radius\<close> and
  \<open>j + radius\<close> do not wrap around in \<^verbatim>\<open>size_t\<close> (\<open>radius + height \<le> 2\<^sup>6\<^sup>4\<close> and
  \<open>radius + width \<le> 2\<^sup>6\<^sup>4\<close>), and let the window of pixel \<open>(i, j)\<close> hold fewer than
  65536 pixels. Then the output pixel is, per channel, the mean rounded half up of the source
  pixels in rows \<open>[max(0, i - radius), min(height - 1, i + radius)]\<close> and columns
  \<open>[max(0, j - radius), min(width - 1, j + radius)]\<close>, every pixel of the window counting once
  and the divisor being the window's pixel count.
\<close>

theorem smooth_pixel_window_mean:
  fixes width height radius :: size_t
  assumes "length bmp = unat width * unat height"
    and "length result = unat width * unat height"
    and "3 * (unat width * unat height) < 2 ^ 64"
    and "i < unat height" and "j < unat width"
    and "unat radius + unat height \<le> 2 ^ 64" and "unat radius + unat width \<le> 2 ^ 64"
    and "spec_count (unat width) (unat height) (unat radius) i j < 65536"
  shows "processImageSmoothFilter bmp width height radius result ! (i * unat width + j) =
           spec_smooth_pixel bmp (unat width) (unat height) (unat radius) i j"
proof -
  define iw :: size_t where "iw = of_nat i"
  define jw :: size_t where "jw = of_nat j"
  have ui: "unat iw = i" unfolding iw_def using assms(4) by (rule unat_of_nat_below)
  have uj: "unat jw = j" unfolding jw_def using assms(5) by (rule unat_of_nat_below)
  have ih: "iw < height" and jwd: "jw < width" using assms(4,5) ui uj by (simp_all add: word_less_nat_alt)
  have small: "unat width * unat height < 2 ^ 64" using assms(3) by simp
  have k: "processImageSmoothFilter bmp width height radius result ! (i * unat width + j) =
      smooth_pixel bmp width height radius iw jw"
    unfolding iw_def jw_def by (rule kernel_pixel[OF assms(2) small assms(4,5)])
  define i0 where "i0 = unat (win_start iw radius)"
  define i1 where "i1 = unat (win_end iw radius height)"
  define j0 where "j0 = unat (win_start jw radius)"
  define j1 where "j1 = unat (win_end jw radius width)"
  have i0: "i0 = i - unat radius" by (simp add: i0_def win_start_nat ui)
  have j0: "j0 = j - unat radius" by (simp add: j0_def win_start_nat uj)
  have "unat iw + unat radius < 2 ^ 64" using assms(4,6) ui by simp
  from win_end_nat[OF ih this] have i1: "i1 = min (unat height - 1) (i + unat radius)"
    by (simp add: i1_def ui)
  have "unat jw + unat radius < 2 ^ 64" using assms(5,7) uj by simp
  from win_end_nat[OF jwd this] have j1: "j1 = min (unat width - 1) (j + unat radius)"
    by (simp add: j1_def uj)
  have swi: "spec_window (unat height) (unat radius) i = (i0, i1)"
    unfolding spec_window_def spec_window_lower i0 i1 ..
  have swj: "spec_window (unat width) (unat radius) j = (j0, j1)"
    unfolding spec_window_def spec_window_lower j0 j1 ..
  define n where "n = spec_count (unat width) (unat height) (unat radius) i j"
  have n: "n = (i1 - i0 + 1) * (j1 - j0 + 1)" by (simp add: n_def spec_count_def swi swj)
  have cnt: "unat (window_count width height radius iw jw) = n"
    unfolding unat_window_count(1)[OF ih jwd assms(3)] n by (simp add: i0_def i1_def j0_def j1_def)
  have npos: "0 < n" by (simp add: n)
  have nlt: "n < 65536" using assms(8) by (simp add: n_def)
  have le: "i0 \<le> i1" "j0 \<le> j1" using assms(4,5) unfolding i0 i1 j0 j1 by linarith+
  have bound: "window_total ch bmp (unat width) i0 i1 j0 j1 \<le> 255 * n" for ch
    using window_total_le[of ch bmp "unat width" i0 i1 j0 j1] le by (simp add: n Suc_diff_le)
  have mean: "channel_mean (of_nat (window_total ch bmp (unat width) i0 i1 j0 j1)) (of_nat n) =
      of_nat (spec_round_mean (window_total ch bmp (unat width) i0 i1 j0 j1) n)" for ch
    unfolding spec_round_mean_div[OF npos] by (rule channel_mean_exact[OF npos nlt bound])
  have "smooth_pixel bmp width height radius iw jw =
      spec_smooth_pixel bmp (unat width) (unat height) (unat radius) i j"
    unfolding smooth_pixel_count[OF ih jwd assms(3)] Let_def cnt spec_smooth_pixel_def swi swj
      i0_def[symmetric] i1_def[symmetric] j0_def[symmetric] j1_def[symmetric] n_def[symmetric]
    by (simp add: mean)
  with k show ?thesis by simp
qed

text \<open>
  Without the bound on the radius the claim fails. With \<open>radius = 2\<^sup>6\<^sup>4 - 1\<close> (what
  \<^verbatim>\<open>(size_t)atoi("-1")\<close> yields) on a one-column image of height 3, \<open>i + radius\<close> wraps to 0
  at row 1: the code averages row 0 alone, where the claimed window is rows 0 to 2.
\<close>

theorem wrapped_radius_counterexample:
  "processImageSmoothFilter [gray 1, gray 2, gray 3] 1 3 (- 1) [gray 0, gray 0, gray 0] ! 1 = gray 1 \<and>
   spec_smooth_pixel [gray 1, gray 2, gray 3] 1 3 (unat (- 1 :: size_t)) 1 0 = gray 2"
proof
  have k: "processImageSmoothFilter [gray 1, gray 2, gray 3] 1 3 (- 1) [gray 0, gray 0, gray 0] ! (1 * unat (1 :: size_t) + 0) =
      smooth_pixel [gray 1, gray 2, gray 3] 1 3 (- 1) (of_nat 1) (of_nat 0)"
    by (rule kernel_pixel) simp_all
  have ws: "window_sums [gray 1, gray 2, gray 3] 1 0 0 0 0 = (1, 1, 1)"
    by (simp add: window_sums_def for_upto_def accumulate_def gray_def)
  have lt: "(1 :: size_t) < - 1" "(0 :: size_t) < - 1"
    by (simp_all add: word_less_nat_alt unsigned_minus_1_eq_mask mask_eq_exp_minus_1)
  have w: "win_start 1 (- 1) = 0" "win_end 1 (- 1) 3 = 0" "win_start 0 (- 1) = 0" "win_end 0 (- 1) 1 = 0"
    using lt by (simp_all add: win_start_def win_end_def)
  have "smooth_pixel [gray 1, gray 2, gray 3] 1 3 (- 1) 1 0 = gray 1"
    unfolding smooth_pixel_win w Let_def ws by (simp add: channel_mean_1_1 gray_def)
  with k show "processImageSmoothFilter [gray 1, gray 2, gray 3] 1 3 (- 1) [gray 0, gray 0, gray 0] ! 1 = gray 1"
    by simp
next
  have w1: "spec_window 3 (unat (- 1 :: size_t)) 1 = (0, 2)"
    by (simp add: spec_window_def unsigned_minus_1_eq_mask mask_eq_exp_minus_1)
  have w2: "spec_window 1 (unat (- 1 :: size_t)) 0 = (0, 0)"
    by (simp add: spec_window_def unsigned_minus_1_eq_mask mask_eq_exp_minus_1)
  have u: "[0 ..< 3] = [0, 1, 2]" by (simp add: upt_rec)
  have t: "window_total ch [gray 1, gray 2, gray 3] 1 0 2 0 0 =
      unat (ch (gray 1)) + unat (ch (gray 2)) + unat (ch (gray 3))" for ch
    by (simp add: window_total_def u)
  show "spec_smooth_pixel [gray 1, gray 2, gray 3] 1 3 (unat (- 1 :: size_t)) 1 0 = gray 2"
    unfolding spec_smooth_pixel_def spec_count_def w1 w2 prod.case t
    by (simp add: gray_def spec_round_mean_div)
qed

text \<open>
  The border case of the specification: in a 3 x 3 image whose corner is white and whose
  other pixels are black, radius 1 gives the corner a window of 4 pixels, and
  \<open>255 / 4\<close> rounds to 64.
\<close>

theorem smooth_pixel_window_mean_witness:
  "length corner_image = unat (3 :: size_t) * unat (3 :: size_t) \<and>
   length (replicate 9 (gray 7)) = unat (3 :: size_t) * unat (3 :: size_t) \<and>
   3 * (unat (3 :: size_t) * unat (3 :: size_t)) < (2 :: nat) ^ 64 \<and>
   (0 :: nat) < unat (3 :: size_t) \<and>
   unat (1 :: size_t) + unat (3 :: size_t) \<le> (2 :: nat) ^ 64 \<and>
   spec_count (unat (3 :: size_t)) (unat (3 :: size_t)) (unat (1 :: size_t)) 0 0 = 4 \<and>
   processImageSmoothFilter corner_image 3 3 1 (replicate 9 (gray 7)) ! (0 * unat (3 :: size_t) + 0) = gray 64"
proof -
  have h1: "length corner_image = unat (3 :: size_t) * unat (3 :: size_t)" by (simp add: corner_image_def)
  have h2: "length (replicate 9 (gray 7)) = unat (3 :: size_t) * unat (3 :: size_t)" by simp
  have h3: "3 * (unat (3 :: size_t) * unat (3 :: size_t)) < (2 :: nat) ^ 64" by simp
  have h4: "(0 :: nat) < unat (3 :: size_t)" by simp
  have h5: "unat (1 :: size_t) + unat (3 :: size_t) \<le> (2 :: nat) ^ 64" by simp
  have w: "spec_window 3 1 0 = (0, 1)" by (simp add: spec_window_def)
  have c': "spec_count 3 3 1 0 0 = 4"
    unfolding spec_count_def w by simp
  then have c: "spec_count (unat (3 :: size_t)) (unat (3 :: size_t)) (unat (1 :: size_t)) 0 0 = 4"
    by simp
  then have h6: "spec_count (unat (3 :: size_t)) (unat (3 :: size_t)) (unat (1 :: size_t)) 0 0 < 65536"
    by simp
  have u: "[0 ..< 2] = [0, 1]" by (simp add: upt_rec)
  have t: "window_total ch corner_image 3 0 1 0 1 = unat (ch (gray 255)) + 3 * unat (ch (gray 0))" for ch
    by (simp add: window_total_def u corner_image_def)
  have s: "spec_smooth_pixel corner_image 3 3 1 0 0 = gray 64"
    unfolding spec_smooth_pixel_def w prod.case t c'
    by (simp add: gray_def spec_round_mean_div)
  from smooth_pixel_window_mean[OF h1 h2 h3 h4 h4 h5 h5 h6]
  have "processImageSmoothFilter corner_image 3 3 1 (replicate 9 (gray 7)) ! (0 * unat (3 :: size_t) + 0) = gray 64"
    using s by simp
  with h1 h2 h3 h4 h5 c show ?thesis by blast
qed

lemma tie_rounding_value:
  "\<lfloor>fl_round 53 (fl_round 24 (fl_round 24 16779185 / fl_round 24 65930) + 1 / 2)\<rfloor> = 254"
  by code_simp

lemma tie_image_total:
  "window_total ch tie_image 32965 0 1 0 32964 =
     32965 * unat (ch (gray 254)) + 32965 * unat (ch (gray 255))"
proof -
  have u: "[0 ..< Suc 1] = [0, 1]" by (simp add: upt_rec)
  have r0: "(\<Sum>jj\<leftarrow>[0 ..< Suc 32964]. unat (ch (tie_image ! (0 * 32965 + jj)))) =
      (Suc 32964 - 0) * unat (ch (gray 254))"
    by (rule sum_list_const_upt) (simp add: tie_image_def nth_append)
  have r1: "(\<Sum>jj\<leftarrow>[0 ..< Suc 32964]. unat (ch (tie_image ! (1 * 32965 + jj)))) =
      (Suc 32964 - 0) * unat (ch (gray 255))"
    by (rule sum_list_const_upt) (simp add: tie_image_def nth_append)
  show ?thesis unfolding window_total_def u using r0 r1 by simp
qed

lemma channel_mean_half_up:
  fixes s :: uint and cnt :: size_t
  assumes "cnt \<noteq> 0" and "unat cnt < 65536" and "unat s \<le> 255 * unat cnt"
  shows "unat (channel_mean s cnt) = spec_round_mean (unat s) (unat cnt) \<and>
         ((of_nat (unat s) / of_nat (unat cnt) :: rat) = of_nat x + 1 / 2 \<longrightarrow>
            unat (channel_mean s cnt) = x + 1)"
proof -
  define S where "S = unat s"
  define n where "n = unat cnt"
  have npos: "0 < n" using assms(1) by (simp add: n_def unat_gt_0)
  have nlt: "n < 65536" and Sle: "S \<le> 255 * n" using assms(2,3) by (simp_all add: n_def S_def)
  define k where "k = (2 * S + n) div (2 * n)"
  have "2 * S + n < 256 * (2 * n)" using Sle npos by simp
  then have k256: "k < 256" unfolding k_def using npos by (simp add: less_mult_imp_div_less)
  have "channel_mean (of_nat S) (of_nat n) = of_nat k"
    unfolding k_def by (rule channel_mean_exact[OF npos nlt Sle])
  then have cm: "channel_mean s cnt = of_nat k" by (simp add: S_def n_def)
  have uk: "unat (of_nat k :: uchar) = k" using k256 by (simp add: unat_of_nat)
  have "unat (channel_mean s cnt) = k" by (simp only: cm uk)
  also have "k = spec_round_mean S n" by (simp only: k_def spec_round_mean_div[OF npos])
  finally have first: "unat (channel_mean s cnt) = spec_round_mean S n" .
  have tie: "k = x + 1" if "(of_nat S / of_nat n :: rat) = of_nat x + 1 / 2"
  proof -
    have "(of_nat S :: rat) = (of_nat x + 1 / 2) * of_nat n"
      using that npos by (simp add: field_simps)
    then have "(of_nat (2 * S) :: rat) = of_nat ((2 * x + 1) * n)" by (simp add: algebra_simps)
    then have "2 * S = (2 * x + 1) * n" by (simp only: of_nat_eq_iff)
    then have "2 * S + n = (x + 1) * (2 * n)" by (simp add: algebra_simps)
    then show ?thesis unfolding k_def using npos by simp
  qed
  show ?thesis
  proof (intro conjI impI)
    show "unat (channel_mean s cnt) = spec_round_mean (unat s) (unat cnt)"
      using first by (simp only: S_def n_def)
  next
    assume "(of_nat (unat s) / of_nat (unat cnt) :: rat) = of_nat x + 1 / 2"
    then have kx: "k = x + 1" using tie by (simp only: S_def n_def)
    have "unat (channel_mean s cnt) = k" by (simp only: cm uk)
    then show "unat (channel_mean s cnt) = x + 1" by (simp only: kx)
  qed
qed

text \<open>
  \<^bold>\<open>C3\<close> (rounding, as amended). Let \<open>(i, j)\<close> be a pixel of a \<open>width \<times> height\<close> image whose
  window, with the bounds \<open>i0, i1, j0, j1\<close> the loop body computes, holds \<open>n\<close> pixels, fewer
  than 65536. Then each channel of the pixel the kernel stores at index \<open>i * width + j\<close> is
  that channel's sum over the window of the source divided by \<open>n\<close> and rounded half up
  (\<open>\<lfloor>x + 1/2\<rfloor>\<close>); in particular, when the mean is exactly \<open>x + 1/2\<close> the output channel is
  \<open>x + 1\<close>. Blue is computed from blue, green from green and red from red.
\<close>

theorem kernel_channel_round_half_up:
  fixes width height radius :: size_t
  assumes "length bmp = unat width * unat height"
    and "length result = unat width * unat height"
    and "3 * (unat width * unat height) < 2 ^ 64"
    and "i < unat height" and "j < unat width"
    and "i0 = unat (win_start (of_nat i) radius)" and "i1 = unat (win_end (of_nat i) radius height)"
    and "j0 = unat (win_start (of_nat j) radius)" and "j1 = unat (win_end (of_nat j) radius width)"
    and "n = (i1 - i0 + 1) * (j1 - j0 + 1)"
    and "n < 65536"
    and "out = processImageSmoothFilter bmp width height radius result ! (i * unat width + j)"
  shows "unat (chan_b out) = spec_round_mean (window_total chan_b bmp (unat width) i0 i1 j0 j1) n \<and>
         unat (chan_g out) = spec_round_mean (window_total chan_g bmp (unat width) i0 i1 j0 j1) n \<and>
         unat (chan_r out) = spec_round_mean (window_total chan_r bmp (unat width) i0 i1 j0 j1) n \<and>
         ((of_nat (window_total chan_b bmp (unat width) i0 i1 j0 j1) / of_nat n :: rat) = of_nat x + 1 / 2
            \<longrightarrow> unat (chan_b out) = x + 1) \<and>
         ((of_nat (window_total chan_g bmp (unat width) i0 i1 j0 j1) / of_nat n :: rat) = of_nat x + 1 / 2
            \<longrightarrow> unat (chan_g out) = x + 1) \<and>
         ((of_nat (window_total chan_r bmp (unat width) i0 i1 j0 j1) / of_nat n :: rat) = of_nat x + 1 / 2
            \<longrightarrow> unat (chan_r out) = x + 1)"
proof -
  define iw :: size_t where "iw = of_nat i"
  define jw :: size_t where "jw = of_nat j"
  have ui: "unat iw = i" unfolding iw_def using assms(4) by (rule unat_of_nat_below)
  have uj: "unat jw = j" unfolding jw_def using assms(5) by (rule unat_of_nat_below)
  have ih: "iw < height" and jwd: "jw < width" using assms(4,5) ui uj by (simp_all add: word_less_nat_alt)
  have small: "unat width * unat height < 2 ^ 64" using assms(3) by simp
  have k: "out = smooth_pixel bmp width height radius iw jw"
    unfolding assms(12) iw_def jw_def by (rule kernel_pixel[OF assms(2) small assms(4,5)])
  note d = dims_small[OF ih jwd assms(3)]
  have b: "i0 = unat (win_start iw radius)" "i1 = unat (win_end iw radius height)"
    "j0 = unat (win_start jw radius)" "j1 = unat (win_end jw radius width)"
    using assms(6-9) by (simp_all add: iw_def jw_def)
  have cnt: "unat (window_count width height radius iw jw) = n"
    unfolding unat_window_count(1)[OF ih jwd assms(3)] assms(10) b ..
  have le: "i0 \<le> i1" "j0 \<le> j1"
    unfolding b by (rule win_start_le_end[OF ih d(1)], rule win_start_le_end[OF jwd d(2)])
  have npos: "0 < n" by (simp add: assms(10))
  have bound: "window_total ch bmp (unat width) i0 i1 j0 j1 \<le> 255 * n" for ch
    using window_total_le[of ch bmp "unat width" i0 i1 j0 j1] le by (simp add: assms(10) Suc_diff_le)
  have sp: "smooth_pixel bmp width height radius iw jw =
     \<lparr>chan_b = channel_mean (of_nat (window_total chan_b bmp (unat width) i0 i1 j0 j1)) (of_nat n),
      chan_g = channel_mean (of_nat (window_total chan_g bmp (unat width) i0 i1 j0 j1)) (of_nat n),
      chan_r = channel_mean (of_nat (window_total chan_r bmp (unat width) i0 i1 j0 j1)) (of_nat n)\<rparr>"
    unfolding smooth_pixel_count[OF ih jwd assms(3)] Let_def cnt b ..
  have un: "unat (of_nat n :: size_t) = n" using assms(11) by (intro unat_of_nat_size_t) simp
  have n0: "(of_nat n :: size_t) \<noteq> 0" using un npos by (metis unat_0 less_numeral_extra(3))
  have ch: "unat (channel_mean (of_nat (window_total ch bmp (unat width) i0 i1 j0 j1)) (of_nat n)) =
        spec_round_mean (window_total ch bmp (unat width) i0 i1 j0 j1) n \<and>
      ((of_nat (window_total ch bmp (unat width) i0 i1 j0 j1) / of_nat n :: rat) = of_nat x + 1 / 2 \<longrightarrow>
        unat (channel_mean (of_nat (window_total ch bmp (unat width) i0 i1 j0 j1)) (of_nat n)) = x + 1)" for ch
  proof -
    define S where "S = window_total ch bmp (unat width) i0 i1 j0 j1"
    have Sle: "S \<le> 255 * n" unfolding S_def by (rule bound)
    then have "S < 2 ^ 32" using assms(11) by simp
    then have uS: "unat (of_nat S :: uint) = S" by (rule unat_of_nat_uint)
    have "unat (of_nat n :: size_t) < 65536" "unat (of_nat S :: uint) \<le> 255 * unat (of_nat n :: size_t)"
      using assms(11) Sle by (simp_all only: un uS)
    from channel_mean_half_up[OF n0 this, of x]
    have r: "unat (channel_mean (of_nat S) (of_nat n)) = spec_round_mean S n \<and>
      ((of_nat S / of_nat n :: rat) = of_nat x + 1 / 2 \<longrightarrow>
        unat (channel_mean (of_nat S) (of_nat n)) = x + 1)"
      unfolding un uS .
    show ?thesis using r unfolding S_def .
  qed
  have sel: "chan_b out = channel_mean (of_nat (window_total chan_b bmp (unat width) i0 i1 j0 j1)) (of_nat n)"
    "chan_g out = channel_mean (of_nat (window_total chan_g bmp (unat width) i0 i1 j0 j1)) (of_nat n)"
    "chan_r out = channel_mean (of_nat (window_total chan_r bmp (unat width) i0 i1 j0 j1)) (of_nat n)"
    unfolding k sp by simp_all
  show ?thesis unfolding sel using ch[of chan_b] ch[of chan_g] ch[of chan_r] by blast
qed

theorem kernel_channel_round_half_up_witness:
  "length [gray 3, gray 4] = unat (2 :: size_t) * unat (1 :: size_t) \<and>
   length [gray 0, gray 0] = unat (2 :: size_t) * unat (1 :: size_t) \<and>
   3 * (unat (2 :: size_t) * unat (1 :: size_t)) < (2 :: nat) ^ 64 \<and>
   (0 :: nat) < unat (1 :: size_t) \<and> (0 :: nat) < unat (2 :: size_t) \<and>
   (0 :: nat) = unat (win_start (of_nat 0) (1 :: size_t)) \<and>
   (0 :: nat) = unat (win_end (of_nat 0) (1 :: size_t) 1) \<and>
   (1 :: nat) = unat (win_end (of_nat 0) (1 :: size_t) 2) \<and>
   (2 :: nat) = (0 - 0 + 1) * (1 - 0 + 1) \<and> (2 :: nat) < 65536 \<and>
   window_total chan_r [gray 3, gray 4] (unat (2 :: size_t)) 0 0 0 1 = 7 \<and>
   (of_nat (window_total chan_r [gray 3, gray 4] (unat (2 :: size_t)) 0 0 0 1) / of_nat 2 :: rat) =
     of_nat 3 + 1 / 2 \<and>
   unat (chan_r (processImageSmoothFilter [gray 3, gray 4] 2 1 1 [gray 0, gray 0]
           ! (0 * unat (2 :: size_t) + 0))) = 3 + 1"
proof -
  have h1: "length [gray 3, gray 4] = unat (2 :: size_t) * unat (1 :: size_t)" by simp
  have h2: "length [gray 0, gray 0] = unat (2 :: size_t) * unat (1 :: size_t)" by simp
  have h3: "3 * (unat (2 :: size_t) * unat (1 :: size_t)) < (2 :: nat) ^ 64" by simp
  have h4: "(0 :: nat) < unat (1 :: size_t)" by simp
  have h5: "(0 :: nat) < unat (2 :: size_t)" by simp
  have h6: "(0 :: nat) = unat (win_start (of_nat 0) (1 :: size_t))" by (simp add: win_start_def)
  have h7: "(0 :: nat) = unat (win_end (of_nat 0) (1 :: size_t) 1)" by (simp add: win_end_def)
  have h8: "(1 :: nat) = unat (win_end (of_nat 0) (1 :: size_t) 2)" by (simp add: win_end_def)
  have h9: "(2 :: nat) = (0 - 0 + 1) * (1 - 0 + 1)" by simp
  have h10: "(2 :: nat) < 65536" by simp
  have u: "[0 ..< 2] = [0, Suc 0]" by (simp add: upt_rec)
  have t: "window_total chan_r [gray 3, gray 4] (unat (2 :: size_t)) 0 0 0 1 = 7"
    by (simp add: window_total_def u gray_def)
  have h11: "(of_nat (window_total chan_r [gray 3, gray 4] (unat (2 :: size_t)) 0 0 0 1) / of_nat 2 :: rat) =
      of_nat 3 + 1 / 2" unfolding t by simp
  from kernel_channel_round_half_up[OF h1 h2 h3 h4 h5 h6 h7 h6 h8 h9 h10 refl, where x = 3] h11
  have "unat (chan_r (processImageSmoothFilter [gray 3, gray 4] 2 1 1 [gray 0, gray 0]
           ! (0 * unat (2 :: size_t) + 0))) = 3 + 1" by blast
  with h1 h2 h3 h4 h5 h6 h7 h8 h9 h10 t h11 show ?thesis by blast
qed

text \<open>
  For larger windows the claim fails, because \<^verbatim>\<open>float\<close> carries 24 significant bits. A
  2 x 32965 image with one row of 254 and one row of 255 and a radius that covers it has the
  channel sum 16779185 over 65930 pixels, a mean of exactly 254.5. The conversion to
  \<^verbatim>\<open>float\<close> rounds the sum to 16779184, the quotient falls just below 254.5, and the output
  is 254 where rounding half up gives 255.
\<close>

theorem float_tie_counterexample:
  "chan_r (processImageSmoothFilter tie_image 32965 2 32965 (replicate 65930 (gray 0)) ! 0) = 254 \<and>
   window_total chan_r tie_image 32965 0 1 0 32964 = 16779185 \<and>
   (16779185 :: rat) / 65930 = 254 + 1 / 2 \<and>
   spec_round_mean 16779185 65930 = 255"
proof -
  have k: "processImageSmoothFilter tie_image 32965 2 32965 (replicate 65930 (gray 0))
        ! (0 * unat (32965 :: size_t) + 0) =
      smooth_pixel tie_image 32965 2 32965 (of_nat 0) (of_nat 0)"
    by (rule kernel_pixel) simp_all
  have w: "win_start 0 32965 = 0" "win_end 0 32965 2 = 1" "win_end 0 32965 32965 = 32964"
    by (simp_all add: win_start_def win_end_def)
  have c: "window_count 32965 2 32965 0 0 = 65930" unfolding window_count_win w by simp
  have tot: "window_total chan_r tie_image 32965 0 1 0 32964 = 16779185"
    unfolding tie_image_total by (simp add: gray_def)
  have m: "channel_mean 16779185 65930 = 254"
    unfolding channel_mean_unfold by (simp add: tie_rounding_value)
  have tot': "window_total chan_r tie_image 32965 0 (Suc 0) 0 32964 = 16779185"
    using tot by simp
  have "chan_r (smooth_pixel tie_image 32965 2 32965 0 0) = 254"
    by (subst smooth_pixel_count) (simp_all add: Let_def w c tot' m)
  with k have "chan_r (processImageSmoothFilter tie_image 32965 2 32965 (replicate 65930 (gray 0)) ! 0) = 254"
    by simp
  moreover have "spec_round_mean 16779185 65930 = 255" by (simp add: spec_round_mean_div)
  ultimately show ?thesis using tot by simp
qed

lemma store_positions_once:
  fixes width height :: size_t
  assumes small: "unat width * unat height < 2 ^ 64"
  shows "map (\<lambda>ij. unat (fst ij * width + snd ij)) (iterations width height) =
           [0 ..< unat width * unat height]"
proof -
  have row: "map (\<lambda>ij. unat (fst ij * width + snd ij)) (map (Pair (of_nat i)) (for_below width)) =
      [i * unat width ..< i * unat width + unat width]" if "i < unat height" for i
  proof -
    have ui: "unat (of_nat i :: size_t) = i" using that by (rule unat_of_nat_below)
    have "map (\<lambda>ij. unat (fst ij * width + snd ij)) (map (Pair (of_nat i)) (for_below width)) =
        map (\<lambda>j. unat ((of_nat i :: size_t) * width + of_nat j)) [0 ..< unat width]"
      by (simp add: for_below_def comp_def)
    also have "\<dots> = map (\<lambda>j. j + i * unat width) [0 ..< unat width]"
    proof (rule map_cong[OF refl])
      fix j assume "j \<in> set [0 ..< unat width]"
      then have jw: "j < unat width" by simp
      then have uj: "unat (of_nat j :: size_t) = j" by (rule unat_of_nat_below)
      show "unat ((of_nat i :: size_t) * width + of_nat j) = j + i * unat width"
        using unat_position[of "of_nat i" "unat height" "of_nat j" width] ui uj that jw small by simp
    qed
    also have "\<dots> = [i * unat width ..< unat width + i * unat width]"
      by (rule map_add_upt)
    also have "\<dots> = [i * unat width ..< i * unat width + unat width]"
      by (simp only: add.commute)
    finally show ?thesis .
  qed
  let ?row = "\<lambda>i. map (\<lambda>ij. unat (fst ij * width + snd ij)) (map (Pair (of_nat i)) (for_below width))"
  have rows: "concat (map ?row [0 ..< n]) = [0 ..< n * unat width]"
    if "n \<le> unat height" for n
    using that
  proof (induction n)
    case 0
    then show ?case by simp
  next
    case (Suc n)
    then have n: "n < unat height" "n \<le> unat height" by simp_all
    have "concat (map ?row [0 ..< Suc n]) = concat (map ?row [0 ..< n]) @ ?row n" by simp
    also have "\<dots> = [0 ..< n * unat width] @ [n * unat width ..< n * unat width + unat width]"
      by (simp only: Suc.IH[OF n(2)] row[OF n(1)])
    also have "\<dots> = [0 ..< n * unat width + unat width]"
      by (rule upt_add_eq_append[symmetric]) simp
    also have "n * unat width + unat width = Suc n * unat width" by simp
    finally show ?case .
  qed
  have "map (\<lambda>ij. unat (fst ij * width + snd ij)) (iterations width height) =
      concat (map (\<lambda>i. map (\<lambda>ij. unat (fst ij * width + snd ij))
        (map (Pair (of_nat i)) (for_below width))) [0 ..< unat height])"
    by (simp add: iterations_def for_below_def map_concat comp_def)
  also have "\<dots> = [0 ..< unat height * unat width]" by (rule rows) simp
  finally show ?thesis by (simp add: mult.commute)
qed

lemma fold_covering:
  fixes width height :: size_t
  assumes "length d = unat width * unat height"
    and small: "unat width * unat height < 2 ^ 64"
    and "set its = set (iterations width height)"
  shows "fold (store_pixel bmp width height radius) its d =
           map (\<lambda>p. smooth_pixel bmp width height radius
                  (of_nat (p div unat width)) (of_nat (p mod unat width)))
             [0 ..< unat width * unat height]"
proof (rule nth_equalityI)
  show "length (fold (store_pixel bmp width height radius) its d) =
      length (map (\<lambda>p. smooth_pixel bmp width height radius
                  (of_nat (p div unat width)) (of_nat (p mod unat width)))
             [0 ..< unat width * unat height])" using assms(1) by simp
next
  fix p assume "p < length (fold (store_pixel bmp width height radius) its d)"
  then have p: "p < length d" by simp
  then have p': "p < unat width * unat height" using assms(1) by simp
  have rng: "\<forall>ij \<in> set its. unat (fst ij) < unat height \<and> unat (snd ij) < unat width"
    unfolding assms(3) by (auto simp: set_iterations word_less_nat_alt)
  define i :: size_t where "i = of_nat (p div unat width)"
  define j :: size_t where "j = of_nat (p mod unat width)"
  have ui: "unat i = p div unat width" and uj: "unat j = p mod unat width"
    and ih: "i < height" and jw: "j < width"
    using pixel_index[OF p'] by (simp_all add: i_def j_def)
  have "(i, j) \<in> set its" unfolding assms(3) using ih jw by (simp add: set_iterations)
  moreover have "pos_of width (i, j) = p" by (simp add: pos_of_def ui uj)
  ultimately have "p \<in> pos_of width ` set its" by force
  then have "fold (store_pixel bmp width height radius) its d ! p =
      smooth_pixel bmp width height radius (of_nat (p div unat width)) (of_nat (p mod unat width))"
    using fold_store_nth[OF rng small p] by simp
  then show "fold (store_pixel bmp width height radius) its d ! p =
      map (\<lambda>p. smooth_pixel bmp width height radius
                  (of_nat (p div unat width)) (of_nat (p mod unat width)))
             [0 ..< unat width * unat height] ! p" using p' by simp
qed

lemma kernel_as_map:
  fixes width height :: size_t
  assumes "length d = unat width * unat height" "unat width * unat height < 2 ^ 64"
  shows "processImageSmoothFilter bmp width height radius d =
           map (\<lambda>p. smooth_pixel bmp width height radius
                  (of_nat (p div unat width)) (of_nat (p mod unat width)))
             [0 ..< unat width * unat height]"
  unfolding kernel_as_iterations by (rule fold_covering[OF assms refl])

lemma kernel_repeated:
  fixes width height :: size_t
  assumes "length d = unat width * unat height" "unat width * unat height < 2 ^ 64"
  shows "((processImageSmoothFilter bmp width height radius) ^^ Suc n) d =
           processImageSmoothFilter bmp width height radius d"
proof -
  have len: "length (((processImageSmoothFilter bmp width height radius) ^^ n) d) =
      unat width * unat height"
    using assms(1) by (induction n) simp_all
  show ?thesis
    using kernel_as_map[OF len assms(2), of bmp radius] kernel_as_map[OF assms, of bmp radius]
    by simp
qed

lemma example_blur:
  assumes "length d = 2"
  shows "processImageSmoothFilter [gray 10, gray 200] 2 1 1 d = [gray 105, gray 105]"
proof -
  have len: "length d = unat (2 :: size_t) * unat (1 :: size_t)" using assms by simp
  have small: "unat (2 :: size_t) * unat (1 :: size_t) < 2 ^ 64" by simp
  have fits: "3 * (unat (2 :: size_t) * unat (1 :: size_t)) < 2 ^ 64" by simp
  have w: "win_start 0 1 = (0 :: size_t)" "win_start 1 1 = (0 :: size_t)"
    "win_end 0 1 1 = (0 :: size_t)" "win_end 0 1 2 = (1 :: size_t)" "win_end 1 1 2 = (1 :: size_t)"
    by (simp_all add: win_start_def win_end_def)
  have c: "window_count 2 1 1 0 0 = 2" "window_count 2 1 1 0 1 = 2"
    unfolding window_count_win w by simp_all
  have u: "[0 ..< 2] = [0, Suc 0]" by (simp add: upt_rec)
  have t: "window_total chan_b [gray 10, gray 200] 2 0 0 0 (Suc 0) = 210"
    "window_total chan_g [gray 10, gray 200] 2 0 0 0 (Suc 0) = 210"
    "window_total chan_r [gray 10, gray 200] 2 0 0 0 (Suc 0) = 210"
    by (simp_all add: window_total_def u gray_def)
  have m: "channel_mean 210 2 = 105"
    using channel_mean_exact[of 2 210] by simp
  have g: "gray 105 = \<lparr>chan_b = 105, chan_g = 105, chan_r = 105\<rparr>" by (simp add: gray_def)
  have p0: "smooth_pixel [gray 10, gray 200] 2 1 1 0 0 = gray 105"
    unfolding g by (subst smooth_pixel_count) (simp_all add: Let_def w c t m)
  have p1: "smooth_pixel [gray 10, gray 200] 2 1 1 0 1 = gray 105"
    unfolding g by (subst smooth_pixel_count) (simp_all add: Let_def w c t m)
  show ?thesis
    unfolding kernel_as_map[OF len small] using p0 p1 by (simp add: u)
qed

text \<open>
  \<^bold>\<open>C10\<close> (the destination's old contents do not matter). The kernel returns a
  destination of the length it was given, and every index \<open>p\<close> of it holds the smoothed pixel
  of row \<open>p div width\<close> and column \<open>p mod width\<close> of the source. This is so because the
  kernel is the loop body run over the iteration space, the body assigns the smoothed pixel
  to index \<open>i * width + j\<close> of the destination, and the indices written are
  \<open>0, 1, \<dots>, width * height - 1\<close>, each exactly once. Hence two destinations of that length
  with different contents give the same result, and invoking the kernel 100 times on the same
  source and destination, as the driver does, gives the result of a single invocation.
\<close>

theorem kernel_overwrites_destination:
  fixes width height :: size_t
  assumes "length d1 = unat width * unat height"
    and "length d2 = unat width * unat height"
    and "3 * (unat width * unat height) < 2 ^ 64"
    and "length bmp = unat width * unat height"
  shows "length (processImageSmoothFilter bmp width height radius d1) = length d1 \<and>
         (\<forall>p < length d1.
            processImageSmoothFilter bmp width height radius d1 ! p =
              smooth_pixel bmp width height radius
                (of_nat (p div unat width)) (of_nat (p mod unat width))) \<and>
         processImageSmoothFilter bmp width height radius d1 =
           fold (store_pixel bmp width height radius) (iterations width height) d1 \<and>
         (\<forall>ij d. store_pixel bmp width height radius ij d =
            d[unat (fst ij * width + snd ij) :=
                smooth_pixel bmp width height radius (fst ij) (snd ij)]) \<and>
         map (\<lambda>ij. unat (fst ij * width + snd ij)) (iterations width height) = [0 ..< length d1] \<and>
         processImageSmoothFilter bmp width height radius d1 =
           processImageSmoothFilter bmp width height radius d2 \<and>
         ((processImageSmoothFilter bmp width height radius) ^^ 100) d1 =
           processImageSmoothFilter bmp width height radius d1"
proof -
  have small: "unat width * unat height < 2 ^ 64" using assms(3) by simp
  have a: "length (processImageSmoothFilter bmp width height radius d1) = length d1" by simp
  have b: "\<forall>p < length d1.
            processImageSmoothFilter bmp width height radius d1 ! p =
              smooth_pixel bmp width height radius
                (of_nat (p div unat width)) (of_nat (p mod unat width))"
    using kernel_nth[OF small assms(1), of _ bmp radius] by blast
  have c: "processImageSmoothFilter bmp width height radius d1 =
           fold (store_pixel bmp width height radius) (iterations width height) d1"
    by (rule kernel_as_iterations)
  have d: "\<forall>ij d. store_pixel bmp width height radius ij d =
            d[unat (fst ij * width + snd ij) :=
                smooth_pixel bmp width height radius (fst ij) (snd ij)]"
    by (simp add: store_pixel_def split_beta)
  have e: "map (\<lambda>ij. unat (fst ij * width + snd ij)) (iterations width height) = [0 ..< length d1]"
    unfolding assms(1) by (rule store_positions_once[OF small])
  have f: "processImageSmoothFilter bmp width height radius d1 =
           processImageSmoothFilter bmp width height radius d2"
    unfolding kernel_as_map[OF assms(1) small] kernel_as_map[OF assms(2) small] ..
  have "((processImageSmoothFilter bmp width height radius) ^^ Suc 99) d1 =
      processImageSmoothFilter bmp width height radius d1"
    by (rule kernel_repeated[OF assms(1) small])
  then have g: "((processImageSmoothFilter bmp width height radius) ^^ 100) d1 =
      processImageSmoothFilter bmp width height radius d1" by simp
  from a b c d e f g show ?thesis by blast
qed

theorem kernel_overwrites_destination_witness:
  "length [gray 0, gray 0] = unat (2 :: size_t) * unat (1 :: size_t) \<and>
   length [gray 9, gray 8] = unat (2 :: size_t) * unat (1 :: size_t) \<and>
   3 * (unat (2 :: size_t) * unat (1 :: size_t)) < (2 :: nat) ^ 64 \<and>
   length [gray 10, gray 200] = unat (2 :: size_t) * unat (1 :: size_t) \<and>
   length (processImageSmoothFilter [gray 10, gray 200] 2 1 1 [gray 0, gray 0]) = length [gray 0, gray 0] \<and>
   processImageSmoothFilter [gray 10, gray 200] 2 1 1 [gray 0, gray 0] = [gray 105, gray 105] \<and>
   processImageSmoothFilter [gray 10, gray 200] 2 1 1 [gray 0, gray 0] ! 0 =
     smooth_pixel [gray 10, gray 200] 2 1 1 (of_nat (0 div unat (2 :: size_t))) (of_nat (0 mod unat (2 :: size_t))) \<and>
   processImageSmoothFilter [gray 10, gray 200] 2 1 1 [gray 0, gray 0] ! 1 =
     smooth_pixel [gray 10, gray 200] 2 1 1 (of_nat (1 div unat (2 :: size_t))) (of_nat (1 mod unat (2 :: size_t))) \<and>
   processImageSmoothFilter [gray 10, gray 200] 2 1 1 [gray 0, gray 0] =
     fold (store_pixel [gray 10, gray 200] 2 1 1) (iterations 2 1) [gray 0, gray 0] \<and>
   map (\<lambda>ij. unat (fst ij * 2 + snd ij)) (iterations 2 1) = [0 ..< length [gray 0, gray 0]] \<and>
   processImageSmoothFilter [gray 10, gray 200] 2 1 1 [gray 0, gray 0] =
     processImageSmoothFilter [gray 10, gray 200] 2 1 1 [gray 9, gray 8] \<and>
   ((processImageSmoothFilter [gray 10, gray 200] 2 1 1) ^^ 100) [gray 0, gray 0] =
     processImageSmoothFilter [gray 10, gray 200] 2 1 1 [gray 0, gray 0]"
proof -
  have h1: "length [gray 0, gray 0] = unat (2 :: size_t) * unat (1 :: size_t)" by simp
  have h2: "length [gray 9, gray 8] = unat (2 :: size_t) * unat (1 :: size_t)" by simp
  have h3: "3 * (unat (2 :: size_t) * unat (1 :: size_t)) < (2 :: nat) ^ 64" by simp
  have h4: "length [gray 10, gray 200] = unat (2 :: size_t) * unat (1 :: size_t)" by simp
  have v: "processImageSmoothFilter [gray 10, gray 200] 2 1 1 [gray 0, gray 0] = [gray 105, gray 105]"
    by (rule example_blur) simp
  have p: "(0 :: nat) < length [gray 0, gray 0]" "(1 :: nat) < length [gray 0, gray 0]" by simp_all
  note t = kernel_overwrites_destination[OF h1 h2 h3 h4, of 1]
  from t have a: "length (processImageSmoothFilter [gray 10, gray 200] 2 1 1 [gray 0, gray 0]) =
      length [gray 0, gray 0]" by blast
  from t p have b: "processImageSmoothFilter [gray 10, gray 200] 2 1 1 [gray 0, gray 0] ! 0 =
     smooth_pixel [gray 10, gray 200] 2 1 1 (of_nat (0 div unat (2 :: size_t))) (of_nat (0 mod unat (2 :: size_t)))"
    "processImageSmoothFilter [gray 10, gray 200] 2 1 1 [gray 0, gray 0] ! 1 =
     smooth_pixel [gray 10, gray 200] 2 1 1 (of_nat (1 div unat (2 :: size_t))) (of_nat (1 mod unat (2 :: size_t)))"
    by blast+
  from t have c: "processImageSmoothFilter [gray 10, gray 200] 2 1 1 [gray 0, gray 0] =
     fold (store_pixel [gray 10, gray 200] 2 1 1) (iterations 2 1) [gray 0, gray 0]"
    "map (\<lambda>ij. unat (fst ij * 2 + snd ij)) (iterations 2 1) = [0 ..< length [gray 0, gray 0]]"
    "processImageSmoothFilter [gray 10, gray 200] 2 1 1 [gray 0, gray 0] =
     processImageSmoothFilter [gray 10, gray 200] 2 1 1 [gray 9, gray 8]"
    "((processImageSmoothFilter [gray 10, gray 200] 2 1 1) ^^ 100) [gray 0, gray 0] =
     processImageSmoothFilter [gray 10, gray 200] 2 1 1 [gray 0, gray 0]"
    by blast+
  from h1 h2 h3 h4 a v b c show ?thesis by blast
qed

lemma iterations_2_1: "iterations 2 1 = [(0, 0), (0, 1)]"
proof -
  have "[0 ..< 2] = [0, Suc 0]" by (simp add: upt_rec)
  then show ?thesis by (simp add: iterations_def for_below_def)
qed

text \<open>
  \<^bold>\<open>C5\<close> (determinism under any partition of the work). Take two executions of the loop
  body, each over any sequence of iterations that covers the iteration space -- whatever the
  assignment of rows to workers, the number of workers or the interleaving of their
  iterations, an iteration possibly running more than once -- and each starting from its own
  destination buffer. Both end with the same destination, which is the one the sequential
  loops produce, and which is a function of the source buffer, the dimensions and the radius
  alone: the list of the smoothed pixels in row-major order. An iteration is taken as one
  step; it reads only the source and writes only its own destination index.
\<close>

theorem kernel_any_iteration_order:
  fixes width height :: size_t
  assumes "length d1 = unat width * unat height"
    and "length d2 = unat width * unat height"
    and "3 * (unat width * unat height) < 2 ^ 64"
    and "set its1 = set (iterations width height)"
    and "set its2 = set (iterations width height)"
    and "length bmp = unat width * unat height"
  shows "fold (store_pixel bmp width height radius) its1 d1 =
           fold (store_pixel bmp width height radius) its2 d2 \<and>
         fold (store_pixel bmp width height radius) its1 d1 =
           processImageSmoothFilter bmp width height radius d2 \<and>
         processImageSmoothFilter bmp width height radius d1 =
           map (\<lambda>p. smooth_pixel bmp width height radius
                  (of_nat (p div unat width)) (of_nat (p mod unat width)))
             [0 ..< unat width * unat height]"
proof -
  have small: "unat width * unat height < 2 ^ 64" using assms(3) by simp
  show ?thesis
    unfolding fold_covering[OF assms(1) small assms(4)] fold_covering[OF assms(2) small assms(5)]
      kernel_as_map[OF assms(1) small] kernel_as_map[OF assms(2) small]
    by simp
qed

theorem kernel_any_iteration_order_witness:
  "length [gray 0, gray 0] = unat (2 :: size_t) * unat (1 :: size_t) \<and>
   length [gray 9, gray 8] = unat (2 :: size_t) * unat (1 :: size_t) \<and>
   3 * (unat (2 :: size_t) * unat (1 :: size_t)) < (2 :: nat) ^ 64 \<and>
   set [(0, 1), (0, 0)] = set (iterations 2 1) \<and>
   set [(0, 0), (0, 1), (0, 0)] = set (iterations 2 1) \<and>
   length [gray 10, gray 200] = unat (2 :: size_t) * unat (1 :: size_t) \<and>
   fold (store_pixel [gray 10, gray 200] 2 1 1) [(0, 1), (0, 0)] [gray 0, gray 0] =
     fold (store_pixel [gray 10, gray 200] 2 1 1) [(0, 0), (0, 1), (0, 0)] [gray 9, gray 8] \<and>
   fold (store_pixel [gray 10, gray 200] 2 1 1) [(0, 1), (0, 0)] [gray 0, gray 0] =
     processImageSmoothFilter [gray 10, gray 200] 2 1 1 [gray 9, gray 8] \<and>
   processImageSmoothFilter [gray 10, gray 200] 2 1 1 [gray 9, gray 8] = [gray 105, gray 105]"
proof -
  have h1: "length [gray 0, gray 0] = unat (2 :: size_t) * unat (1 :: size_t)" by simp
  have h2: "length [gray 9, gray 8] = unat (2 :: size_t) * unat (1 :: size_t)" by simp
  have h3: "3 * (unat (2 :: size_t) * unat (1 :: size_t)) < (2 :: nat) ^ 64" by simp
  have h4: "set [(0, 1), (0, 0)] = set (iterations 2 1)" unfolding iterations_2_1 by auto
  have h5: "set [(0, 0), (0, 1), (0, 0)] = set (iterations 2 1)" unfolding iterations_2_1 by auto
  have h6: "length [gray 10, gray 200] = unat (2 :: size_t) * unat (1 :: size_t)" by simp
  have v: "processImageSmoothFilter [gray 10, gray 200] 2 1 1 [gray 9, gray 8] = [gray 105, gray 105]"
    by (rule example_blur) simp
  from kernel_any_iteration_order[OF h1 h2 h3 h4 h5 h6, of 1] h1 h2 h3 h4 h5 h6 v
  show ?thesis by blast
qed

lemma overflow_rounding_value:
  "\<lfloor>fl_round 53 (fl_round 24 (fl_round 24 254 / fl_round 24 16843010) + 1 / 2)\<rfloor> = 0"
  by code_simp

text \<open>
  \<^bold>\<open>C6\<close> (uniform images are fixed points, as amended). For a source image whose pixels
  all equal \<open>c\<close>, and a radius for which no window's channel sum reaches \<open>2\<^sup>3\<^sup>2\<close> (the
  largest channel of \<open>c\<close> times the window's pixel count stays below \<open>2\<^sup>3\<^sup>2\<close>), every
  pixel of the destination equals \<open>c\<close>.
\<close>

theorem uniform_image_fixed_point:
  fixes width height radius :: size_t
  assumes "length result = unat width * unat height"
    and "3 * (unat width * unat height) < 2 ^ 64"
    and "\<forall>i < unat height. \<forall>j < unat width.
           max_channel c * unat (window_count width height radius (of_nat i) (of_nat j)) < 2 ^ 32"
  shows "processImageSmoothFilter (replicate (unat width * unat height) c) width height radius result =
           replicate (unat width * unat height) c"
proof (rule nth_equalityI)
  show "length (processImageSmoothFilter (replicate (unat width * unat height) c) width height radius result) =
      length (replicate (unat width * unat height) c)" using assms(1) by simp
next
  let ?bmp = "replicate (unat width * unat height) c"
  fix p assume "p < length (processImageSmoothFilter ?bmp width height radius result)"
  then have p: "p < unat width * unat height" using assms(1) by simp
  define i :: size_t where "i = of_nat (p div unat width)"
  define j :: size_t where "j = of_nat (p mod unat width)"
  have ui: "unat i = p div unat width" and uj: "unat j = p mod unat width"
    and ih: "i < height" and jw: "j < width"
    using pixel_index[OF p] by (simp_all add: i_def j_def)
  have small: "unat width * unat height < 2 ^ 64" using assms(2) by simp
  have k: "processImageSmoothFilter ?bmp width height radius result ! p = smooth_pixel ?bmp width height radius i j"
    using kernel_nth[OF small assms(1), of p ?bmp radius] p assms(1) by (simp add: i_def j_def)
  note d = dims_small[OF ih jw assms(2)]
  define i0 where "i0 = unat (win_start i radius)"
  define i1 where "i1 = unat (win_end i radius height)"
  define j0 where "j0 = unat (win_start j radius)"
  define j1 where "j1 = unat (win_end j radius width)"
  define n where "n = unat (window_count width height radius i j)"
  have le: "i0 \<le> i1" "j0 \<le> j1"
    unfolding i0_def i1_def j0_def j1_def
    by (rule win_start_le_end[OF ih d(1)], rule win_start_le_end[OF jw d(2)])
  have lt: "i1 < unat height" "j1 < unat width"
    unfolding i1_def j1_def by (rule win_end_less[OF ih], rule win_end_less[OF jw])
  have n: "n = (i1 - i0 + 1) * (j1 - j0 + 1)"
    unfolding n_def unat_window_count(1)[OF ih jw assms(2)] i0_def i1_def j0_def j1_def ..
  have npos: "0 < n" and nle: "n \<le> unat width * unat height"
    unfolding n_def by (rule unat_window_count(2)[OF ih jw assms(2)], rule unat_window_count(3)[OF ih jw assms(2)])
  have n64: "n < 2 ^ 64" using nle small by simp
  have "unat i < unat height" "unat j < unat width" using ih jw by (simp_all add: word_less_nat_alt)
  then have "max_channel c * unat (window_count width height radius (of_nat (unat i)) (of_nat (unat j))) < 2 ^ 32"
    using assms(3) by blast
  then have ov: "max_channel c * n < 2 ^ 32" by (simp add: n_def)
  have inside: "?bmp ! (ii * unat width + jj) = c" if "ii \<le> i1" "jj \<le> j1" for ii jj
  proof -
    have "ii * unat width + jj < (ii + 1) * unat width" using that(2) lt(2) by simp
    also have "\<dots> \<le> unat height * unat width" using that(1) lt(1) by (intro mult_right_mono) auto
    finally show ?thesis by (simp add: mult.commute)
  qed
  have tot: "window_total ch ?bmp (unat width) i0 i1 j0 j1 = unat (ch c) * n" for ch
    using window_total_uniform[of i0 i1 j0 j1 ?bmp "unat width" c ch] inside le
    by (simp add: n Suc_diff_le)
  have mean: "channel_mean (of_nat (unat (ch c) * n)) (of_nat n) = ch c"
    if "unat (ch c) \<le> max_channel c" for ch
  proof -
    have "unat (ch c) < 2 ^ 8" using unsigned_less[of "ch c"] by simp
    then have c255: "unat (ch c) \<le> 255" by simp
    have "unat (ch c) * n \<le> max_channel c * n" using that by (rule mult_le_mono1)
    then have "unat (ch c) * n < 2 ^ 32" using ov by (rule le_less_trans)
    from channel_mean_uniform[OF npos c255 this n64] show ?thesis by simp
  qed
  have "smooth_pixel ?bmp width height radius i j = c"
    unfolding smooth_pixel_count[OF ih jw assms(2)] Let_def
      i0_def[symmetric] i1_def[symmetric] j0_def[symmetric] j1_def[symmetric] n_def[symmetric] tot
    using mean[of chan_b] mean[of chan_g] mean[of chan_r] by (simp add: max_channel_def)
  with k p show "processImageSmoothFilter ?bmp width height radius result ! p = ?bmp ! p" by simp
qed

theorem uniform_image_fixed_point_witness:
  "length (replicate 4 (gray 0)) = unat (2 :: size_t) * unat (2 :: size_t) \<and>
   3 * (unat (2 :: size_t) * unat (2 :: size_t)) < (2 :: nat) ^ 64 \<and>
   max_channel (gray 200) * unat (window_count 2 2 1 0 0) < 2 ^ 32 \<and>
   max_channel (gray 200) * unat (window_count 2 2 1 0 1) < 2 ^ 32 \<and>
   max_channel (gray 200) * unat (window_count 2 2 1 1 0) < 2 ^ 32 \<and>
   max_channel (gray 200) * unat (window_count 2 2 1 1 1) < 2 ^ 32 \<and>
   processImageSmoothFilter (replicate (unat (2 :: size_t) * unat (2 :: size_t)) (gray 200)) 2 2 1
       (replicate 4 (gray 0)) =
     replicate (unat (2 :: size_t) * unat (2 :: size_t)) (gray 200)"
proof -
  have h1: "length (replicate 4 (gray 0)) = unat (2 :: size_t) * unat (2 :: size_t)" by simp
  have h2: "3 * (unat (2 :: size_t) * unat (2 :: size_t)) < (2 :: nat) ^ 64" by simp
  have h3: "\<forall>i < unat (2 :: size_t). \<forall>j < unat (2 :: size_t).
      max_channel (gray 200) * unat (window_count 2 2 1 (of_nat i) (of_nat j)) < 2 ^ 32"
  proof (intro allI impI)
    fix i j :: nat assume i: "i < unat (2 :: size_t)" and j: "j < unat (2 :: size_t)"
    have ui: "unat (of_nat i :: size_t) = i" using i by (rule unat_of_nat_below)
    have uj: "unat (of_nat j :: size_t) = j" using j by (rule unat_of_nat_below)
    have "(of_nat i :: size_t) < 2" "(of_nat j :: size_t) < 2"
      using i j ui uj by (simp_all add: word_less_nat_alt)
    from unat_window_count(3)[OF this h2, of 1]
    have "unat (window_count 2 2 1 (of_nat i) (of_nat j)) \<le> 4" by simp
    then have "200 * unat (window_count 2 2 1 (of_nat i) (of_nat j)) \<le> 200 * 4" by (rule mult_le_mono2)
    moreover have "max_channel (gray 200) = 200" by (simp add: max_channel_def gray_def)
    ultimately show "max_channel (gray 200) * unat (window_count 2 2 1 (of_nat i) (of_nat j)) < 2 ^ 32"
      by simp
  qed
  have e: "max_channel (gray 200) * unat (window_count 2 2 1 0 0) < 2 ^ 32"
    "max_channel (gray 200) * unat (window_count 2 2 1 0 1) < 2 ^ 32"
    "max_channel (gray 200) * unat (window_count 2 2 1 1 0) < 2 ^ 32"
    "max_channel (gray 200) * unat (window_count 2 2 1 1 1) < 2 ^ 32"
    using h3[rule_format, of 0 0] h3[rule_format, of 0 1] h3[rule_format, of 1 0] h3[rule_format, of 1 1]
    by simp_all
  from uniform_image_fixed_point[OF h1 h2 h3] h1 h2 e show ?thesis by blast
qed

text \<open>
  Without the bound the claim fails: the accumulators are 32-bit. In a white image of one row
  of 16843010 pixels with a radius that covers the row, each channel sums to
  \<open>255 * 16843010 = 2\<^sup>3\<^sup>2 + 254\<close>, the accumulator holds 254, and the output pixel is black.
\<close>

theorem accumulator_overflow_counterexample:
  "white_row = replicate (unat (16843010 :: size_t) * unat (1 :: size_t)) (gray 255) \<and>
   processImageSmoothFilter white_row 16843010 1 16843010 (replicate 16843010 (gray 7)) ! 0 = gray 0"
proof -
  have k: "processImageSmoothFilter white_row 16843010 1 16843010 (replicate 16843010 (gray 7))
        ! (0 * unat (16843010 :: size_t) + 0) =
      smooth_pixel white_row 16843010 1 16843010 (of_nat 0) (of_nat 0)"
    by (rule kernel_pixel) simp_all
  have w: "win_start 0 16843010 = 0" "win_end 0 16843010 1 = 0" "win_end 0 16843010 16843010 = 16843009"
    by (simp_all add: win_start_def win_end_def)
  have c: "window_count 16843010 1 16843010 0 0 = 16843010" unfolding window_count_win w by simp
  have tot: "window_total ch white_row 16843010 0 0 0 16843009 =
      unat (ch (gray 255)) * ((Suc 0 - 0) * (Suc 16843009 - 0))" for ch
    by (rule window_total_uniform) (simp add: white_row_def)
  have m: "channel_mean 4294967550 16843010 = 0"
    unfolding channel_mean_unfold by (simp add: overflow_rounding_value)
  have "smooth_pixel white_row 16843010 1 16843010 0 0 = gray 0"
    by (subst smooth_pixel_count) (simp_all add: Let_def w c tot m gray_def)
  with k have "processImageSmoothFilter white_row 16843010 1 16843010 (replicate 16843010 (gray 7)) ! 0 = gray 0"
    by simp
  then show ?thesis by (simp add: white_row_def)
qed

section \<open>The claims about the codec and the driver\<close>

lemma read_pixels_short:
  "length stream < 3 * (sz - i) \<Longrightarrow> read_pixels i sz stream bmp = None"
proof (induction i sz stream bmp rule: read_pixels.induct)
  case (1 i sz stream bmp)
  then have lt: "i < sz" by (cases "i < sz") auto
  show ?case
  proof (cases "length (take 3 stream) \<noteq> 3")
    case True
    then have "length stream < 3" by simp
    then show ?thesis using lt by (subst read_pixels.simps) (simp add: fread_def PIXEL_REAL_SIZE_def)
  next
    case False
    then have len: "3 \<le> length stream" by simp
    have fr: "(take 3 stream, drop 3 stream) = fread PIXEL_REAL_SIZE stream"
      by (simp add: fread_def PIXEL_REAL_SIZE_def)
    have l3: "\<not> length (take 3 stream) \<noteq> PIXEL_REAL_SIZE" using False by (simp add: PIXEL_REAL_SIZE_def)
    have "length (drop 3 stream) < 3 * (sz - (i + 1))" using "1.prems" len lt by simp
    then have "read_pixels (i + 1) sz (drop 3 stream) (bmp[i := pixel_of_bytes (take 3 stream)]) = None"
      by (rule "1.IH"[OF lt fr l3])
    then show ?thesis using lt False by (subst read_pixels.simps) (simp add: fread_def PIXEL_REAL_SIZE_def)
  qed
qed

lemma bytes_pixel_roundtrip:
  "length chunk = 3 \<Longrightarrow> bytes_of_pixel (pixel_of_bytes chunk) = chunk"
  by (auto simp: bytes_of_pixel_def pixel_of_bytes_def length_Suc_conv numeral_3_eq_3)

lemma read_pixels_full:
  assumes "i \<le> sz" "length bmp = sz" "3 * (sz - i) \<le> length stream"
  shows "\<exists>bmp'. read_pixels i sz stream bmp = Some bmp' \<and> length bmp' = sz \<and>
           take i bmp' = take i bmp \<and>
           concat (map bytes_of_pixel (drop i bmp')) = take (3 * (sz - i)) stream"
  using assms
proof (induction i sz stream bmp rule: read_pixels.induct)
  case (1 i sz stream bmp)
  show ?case
  proof (cases "i < sz")
    case False
    then have "i = sz" using "1.prems" by simp
    then show ?thesis using "1.prems" by (subst read_pixels.simps) simp
  next
    case True
    then have len: "length (take 3 stream) = 3" using "1.prems" by simp
    define chunk where "chunk = take 3 stream"
    define bmp1 where "bmp1 = bmp[i := pixel_of_bytes chunk]"
    have l1: "length bmp1 = sz" using "1.prems" by (simp add: bmp1_def)
    have s1: "3 * (sz - (i + 1)) \<le> length (drop 3 stream)" using "1.prems" True by simp
    have fr: "(chunk, drop 3 stream) = fread PIXEL_REAL_SIZE stream"
      by (simp add: fread_def PIXEL_REAL_SIZE_def chunk_def)
    have l3: "\<not> length chunk \<noteq> PIXEL_REAL_SIZE" using len by (simp add: PIXEL_REAL_SIZE_def chunk_def)
    have i1: "i + 1 \<le> sz" using True by simp
    have "\<exists>bmp'. read_pixels (i + 1) sz (drop 3 stream) bmp1 = Some bmp' \<and> length bmp' = sz \<and>
           take (i + 1) bmp' = take (i + 1) bmp1 \<and>
           concat (map bytes_of_pixel (drop (i + 1) bmp')) = take (3 * (sz - (i + 1))) (drop 3 stream)"
      unfolding bmp1_def by (rule "1.IH"[OF True fr l3 i1 l1[unfolded bmp1_def] s1])
    then obtain bmp' where b: "read_pixels (i + 1) sz (drop 3 stream) bmp1 = Some bmp'" "length bmp' = sz"
      "take (i + 1) bmp' = take (i + 1) bmp1"
      "concat (map bytes_of_pixel (drop (i + 1) bmp')) = take (3 * (sz - (i + 1))) (drop 3 stream)"
      by blast
    have r: "read_pixels i sz stream bmp = Some bmp'"
      using True len b(1) by (subst read_pixels.simps) (simp add: fread_def PIXEL_REAL_SIZE_def chunk_def bmp1_def)
    have ilt: "i < length bmp'" "i < length bmp1" "i < length bmp" using True b(2) l1 "1.prems" by simp_all
    have "bmp' ! i = bmp1 ! i"
      using b(3) ilt by (metis lessI nth_take Suc_eq_plus1)
    then have at_i: "bmp' ! i = pixel_of_bytes chunk" using ilt by (simp add: bmp1_def)
    have "take i bmp' = take i bmp1"
      using b(3) by (metis Suc_eq_plus1 le_add1 take_take min.absorb1)
    then have t: "take i bmp' = take i bmp" by (simp add: bmp1_def)
    have "drop i bmp' = bmp' ! i # drop (i + 1) bmp'" using ilt(1) by (simp add: Cons_nth_drop_Suc)
    then have "concat (map bytes_of_pixel (drop i bmp')) =
        chunk @ take (3 * (sz - (i + 1))) (drop 3 stream)"
      using b(4) at_i len by (simp add: bytes_pixel_roundtrip chunk_def)
    also have "\<dots> = take (3 + 3 * (sz - (i + 1))) stream"
      unfolding chunk_def by (simp add: take_add)
    also have "3 + 3 * (sz - (i + 1)) = 3 * (sz - i)" using True by simp
    finally show ?thesis using r b(2) t by blast
  qed
qed

lemma load_uint_append:
  "off + 3 < length xs \<Longrightarrow> load_uint (xs @ ys) off = load_uint xs off"
  by (simp add: load_uint_def nth_append)

lemma load_uint_take:
  "off + 3 < n \<Longrightarrow> load_uint (take n xs) off = load_uint xs off"
  by (simp add: load_uint_def)

lemma header_dims:
  assumes "BMP_HEADER_SIZE \<le> length f"
  shows "getWidth (take BMP_HEADER_SIZE f @ rest) = getWidth f"
    and "getHeight (take BMP_HEADER_SIZE f @ rest) = getHeight f"
proof -
  have len: "length (take BMP_HEADER_SIZE f) = 54" using assms by (simp add: BMP_HEADER_SIZE_def)
  have l18: "18 + 3 < length (take BMP_HEADER_SIZE f)" and l22: "22 + 3 < length (take BMP_HEADER_SIZE f)"
    unfolding len by simp_all
  have "load_uint (take BMP_HEADER_SIZE f @ rest) 18 = load_uint (take BMP_HEADER_SIZE f) 18"
    by (rule load_uint_append[OF l18])
  also have "\<dots> = load_uint f 18" unfolding BMP_HEADER_SIZE_def by (rule load_uint_take) simp
  finally show "getWidth (take BMP_HEADER_SIZE f @ rest) = getWidth f"
    by (simp add: getWidth_def BMP_HEADER_WIDTH_OFFSET_def)
  have "load_uint (take BMP_HEADER_SIZE f @ rest) 22 = load_uint (take BMP_HEADER_SIZE f) 22"
    by (rule load_uint_append[OF l22])
  also have "\<dots> = load_uint f 22" unfolding BMP_HEADER_SIZE_def by (rule load_uint_take) simp
  finally show "getHeight (take BMP_HEADER_SIZE f @ rest) = getHeight f"
    by (simp add: getHeight_def BMP_HEADER_HEIGHT_OFFSET_def)
qed

lemma block_length:
  fixes sz :: size_t
  assumes "3 * unat sz < 2 ^ 64"
  shows "unat (3 * sz) div 3 = unat sz"
proof -
  have "unat (3 :: size_t) * unat sz < 2 ^ 64" using assms by simp
  then have "unat (3 * sz) = unat (3 :: size_t) * unat sz"
    using unat_mult_lem[of 3 sz] by simp
  then show ?thesis by simp
qed

lemma readBmp_short_header:
  assumes "contents fs filename = Some f" "length f < BMP_HEADER_SIZE"
  shows "readBmp fs filename header bmp h = (False, f @ drop (length f) header, bmp, h)"
proof -
  have "take BMP_HEADER_SIZE f = f" "length f \<noteq> BMP_HEADER_SIZE" using assms(2) by simp_all
  then show ?thesis
    unfolding readBmp_def assms(1) option.case fread_def prod.case Let_def by simp
qed

lemma readBmp_header_ok:
  assumes "contents fs filename = Some f" "BMP_HEADER_SIZE \<le> length f"
  shows "readBmp fs filename header bmp h =
     (let header' = take BMP_HEADER_SIZE f @ drop BMP_HEADER_SIZE header;
          sz = getWidth f * getHeight f;
          buf = map (fresh_contents h) [0 ..< unat (3 * sz) div 3]
      in case read_pixels 0 (unat sz) (drop BMP_HEADER_SIZE f) buf of
           None \<Rightarrow> (False, header', None, h)
         | Some buf' \<Rightarrow> (True, header', Some buf', h\<lparr>live_blocks := live_blocks h + 1\<rparr>))"
proof -
  have len: "length (take BMP_HEADER_SIZE f) = BMP_HEADER_SIZE" using assms(2) by simp
  show ?thesis
    unfolding readBmp_def assms(1) option.case fread_def prod.case Let_def len
      header_dims[OF assms(2)] allocateMemory_def deallocateMemory_def
    by (simp split: option.split)
qed

lemma readBmp_success:
  assumes "contents fs filename = Some f" "BMP_HEADER_SIZE \<le> length f"
    and "3 * unat (getWidth f * getHeight f) \<le> length f - BMP_HEADER_SIZE"
    and "length f < 2 ^ 64"
  shows "\<exists>pixels. readBmp fs filename header bmp h =
           (True, take BMP_HEADER_SIZE f @ drop BMP_HEADER_SIZE header, Some pixels,
            h\<lparr>live_blocks := live_blocks h + 1\<rparr>) \<and>
         length pixels = unat (getWidth f * getHeight f) \<and>
         concat (map bytes_of_pixel pixels) =
           take (3 * unat (getWidth f * getHeight f)) (drop BMP_HEADER_SIZE f)"
proof -
  define sz where "sz = unat (getWidth f * getHeight f)"
  define buf where "buf = map (fresh_contents h) [0 ..< unat (3 * (getWidth f * getHeight f)) div 3]"
  have "3 * unat (getWidth f * getHeight f) < 2 ^ 64" using assms(3,4) by simp
  then have lb: "length buf = sz" by (simp add: buf_def sz_def block_length)
  have "\<exists>bmp'. read_pixels 0 sz (drop BMP_HEADER_SIZE f) buf = Some bmp' \<and> length bmp' = sz \<and>
           take 0 bmp' = take 0 buf \<and>
           concat (map bytes_of_pixel (drop 0 bmp')) = take (3 * (sz - 0)) (drop BMP_HEADER_SIZE f)"
    by (rule read_pixels_full) (use assms(3) lb in \<open>simp_all add: sz_def\<close>)
  then obtain pixels where p: "read_pixels 0 sz (drop BMP_HEADER_SIZE f) buf = Some pixels"
    "length pixels = sz" "concat (map bytes_of_pixel pixels) = take (3 * sz) (drop BMP_HEADER_SIZE f)"
    by auto
  show ?thesis
    unfolding readBmp_header_ok[OF assms(1,2)] Let_def sz_def[symmetric] buf_def[symmetric]
    using p by simp
qed

lemma readBmp_True:
  assumes "readBmp fs filename header0 bmp0 h = (True, header, bmp, h1)"
  shows "\<exists>f. contents fs filename = Some f \<and> BMP_HEADER_SIZE \<le> length f \<and>
           take BMP_HEADER_SIZE header = take BMP_HEADER_SIZE f"
proof (cases "contents fs filename")
  case None
  then show ?thesis using assms by (simp add: readBmp_def)
next
  case (Some f)
  show ?thesis
  proof (cases "BMP_HEADER_SIZE \<le> length f")
    case False
    then have "length f < BMP_HEADER_SIZE" by simp
    from readBmp_short_header[OF Some this, of header0 bmp0 h] show ?thesis using assms by simp
  next
    case True
    have "header = take BMP_HEADER_SIZE f @ drop BMP_HEADER_SIZE header0"
      using assms unfolding readBmp_header_ok[OF Some True] Let_def
      by (auto split: option.splits)
    then have "take BMP_HEADER_SIZE header = take BMP_HEADER_SIZE f" using True by simp
    then show ?thesis using Some True by simp
  qed
qed

lemma example_dims:
  "getWidth (example_header @ rest) = 1" "getHeight (example_header @ rest) = 1"
  by (simp_all add: getWidth_def getHeight_def load_uint_def example_header_def nth_append
      BMP_HEADER_WIDTH_OFFSET_def BMP_HEADER_HEIGHT_OFFSET_def)

lemma example_lengths:
  "length example_header = 54" "length example_file = 57"
  by (simp_all add: example_header_def example_file_def)

text \<open>
  \<^bold>\<open>C4\<close> (round trip). For every file that consists of a 54-byte header followed by
  exactly \<open>width * height\<close> three-byte pixel records (blue, green, red), decoding it and
  encoding the decoded header and pixels, with no filtering in between, writes a file
  identical to the input. The file's length is one a file can have (below \<open>2\<^sup>6\<^sup>4\<close>) and the
  output path can be opened for writing.
\<close>

theorem decode_encode_round_trip:
  assumes "contents fs input = Some f"
    and "length f = BMP_HEADER_SIZE + PIXEL_REAL_SIZE * unat (getWidth f * getHeight f)"
    and "length f < 2 ^ 64"
    and "writable fs output"
  shows "\<exists>header' pixels h'.
           readBmp fs input header bmp h = (True, header', Some pixels, h') \<and>
           writeBmp fs output header' pixels = (True, fs\<lparr>contents := (contents fs)(output \<mapsto> f)\<rparr>)"
proof -
  define sz where "sz = unat (getWidth f * getHeight f)"
  have len: "BMP_HEADER_SIZE \<le> length f" using assms(2) by simp
  have enough: "3 * unat (getWidth f * getHeight f) \<le> length f - BMP_HEADER_SIZE"
    using assms(2) by (simp add: PIXEL_REAL_SIZE_def)
  define header' where "header' = take BMP_HEADER_SIZE f @ drop BMP_HEADER_SIZE header"
  from readBmp_success[OF assms(1) len enough assms(3), of header bmp h]
  obtain pixels where p: "readBmp fs input header bmp h =
      (True, header', Some pixels, h\<lparr>live_blocks := live_blocks h + 1\<rparr>)"
    "length pixels = sz"
    "concat (map bytes_of_pixel pixels) = take (3 * sz) (drop BMP_HEADER_SIZE f)"
    unfolding header'_def sz_def by blast
  have body: "take (3 * sz) (drop BMP_HEADER_SIZE f) = drop BMP_HEADER_SIZE f"
    using assms(2) by (simp add: sz_def PIXEL_REAL_SIZE_def)
  have dims: "getWidth header' = getWidth f" "getHeight header' = getHeight f"
    unfolding header'_def by (rule header_dims[OF len])+
  have th: "take BMP_HEADER_SIZE header' = take BMP_HEADER_SIZE f"
    using len by (simp add: header'_def)
  have "map (\<lambda>i. bytes_of_pixel (pixels ! i)) [0 ..< sz] = map bytes_of_pixel pixels"
  proof -
    have "map bytes_of_pixel (map ((!) pixels) [0 ..< length pixels]) = map bytes_of_pixel pixels"
      by (simp only: map_nth)
    then show ?thesis by (simp add: p(2) comp_def)
  qed
  then have "take BMP_HEADER_SIZE header' @ concat (map (\<lambda>i. bytes_of_pixel (pixels ! i)) [0 ..< sz]) = f"
    by (simp only: th p(3) body append_take_drop_id)
  then have "writeBmp fs output header' pixels = (True, fs\<lparr>contents := (contents fs)(output \<mapsto> f)\<rparr>)"
    using assms(4) by (simp add: writeBmp_def Let_def dims sz_def)
  with p(1) show ?thesis by blast
qed

theorem decode_encode_round_trip_witness:
  "contents example_fs ''in.bmp'' = Some example_file \<and>
   length example_file =
     BMP_HEADER_SIZE + PIXEL_REAL_SIZE * unat (getWidth example_file * getHeight example_file) \<and>
   length example_file < 2 ^ 64 \<and>
   writable example_fs ''out.bmp'' \<and>
   (\<exists>header' pixels h'.
      readBmp example_fs ''in.bmp'' (replicate 54 0) None example_heap = (True, header', Some pixels, h') \<and>
      writeBmp example_fs ''out.bmp'' header' pixels =
        (True, example_fs\<lparr>contents := (contents example_fs)(''out.bmp'' \<mapsto> example_file)\<rparr>))"
proof -
  have h1: "contents example_fs ''in.bmp'' = Some example_file" by (simp add: example_fs_def)
  have h2: "length example_file =
      BMP_HEADER_SIZE + PIXEL_REAL_SIZE * unat (getWidth example_file * getHeight example_file)"
    unfolding example_file_def example_dims
    by (simp add: example_lengths BMP_HEADER_SIZE_def PIXEL_REAL_SIZE_def)
  have h3: "length example_file < 2 ^ 64" by (simp add: example_lengths)
  have h4: "writable example_fs ''out.bmp''" by (simp add: example_fs_def)
  from decode_encode_round_trip[OF h1 h2 h3 h4, of "replicate 54 0" None example_heap] h1 h2 h3 h4
  show ?thesis by blast
qed

text \<open>
  \<^bold>\<open>C8\<close> (short input). For a file shorter than the 54-byte header, \<open>readBmp\<close> returns
  \<^verbatim>\<open>false\<close> without having allocated anything: the caller's pixel pointer and the heap are
  unchanged. For a file whose header is complete and whose pixel data is short (the byte size
  of the announced image fitting \<^verbatim>\<open>size_t\<close>, so that the buffer is the size asked for), it
  returns \<^verbatim>\<open>false\<close> with the pixel pointer null and the buffer released, so the heap is as
  before.
\<close>

theorem short_file_rejected:
  assumes "contents fs filename = Some f"
  shows "(length f < BMP_HEADER_SIZE \<longrightarrow>
            readBmp fs filename header bmp h = (False, f @ drop (length f) header, bmp, h)) \<and>
         (BMP_HEADER_SIZE \<le> length f \<and>
          length f < BMP_HEADER_SIZE + PIXEL_REAL_SIZE * unat (getWidth f * getHeight f) \<and>
          PIXEL_REAL_SIZE * unat (getWidth f * getHeight f) < 2 ^ 64 \<longrightarrow>
            readBmp fs filename header bmp h =
              (False, take BMP_HEADER_SIZE f @ drop BMP_HEADER_SIZE header, None, h))"
proof (intro conjI impI)
  assume short: "length f < BMP_HEADER_SIZE"
  show "readBmp fs filename header bmp h = (False, f @ drop (length f) header, bmp, h)"
    by (rule readBmp_short_header[OF assms short])
next
  assume a: "BMP_HEADER_SIZE \<le> length f \<and>
          length f < BMP_HEADER_SIZE + PIXEL_REAL_SIZE * unat (getWidth f * getHeight f) \<and>
          PIXEL_REAL_SIZE * unat (getWidth f * getHeight f) < 2 ^ 64"
  then have len: "BMP_HEADER_SIZE \<le> length f" by simp
  have "length f - BMP_HEADER_SIZE < 3 * unat (getWidth f * getHeight f)"
    using a unfolding PIXEL_REAL_SIZE_def by linarith
  then have "length (drop BMP_HEADER_SIZE f) < 3 * (unat (getWidth f * getHeight f) - 0)"
    by simp
  then have "read_pixels 0 (unat (getWidth f * getHeight f)) (drop BMP_HEADER_SIZE f)
      (map (fresh_contents h) [0 ..< unat (3 * (getWidth f * getHeight f)) div 3]) = None"
    by (rule read_pixels_short)
  then show "readBmp fs filename header bmp h =
      (False, take BMP_HEADER_SIZE f @ drop BMP_HEADER_SIZE header, None, h)"
    unfolding readBmp_header_ok[OF assms len] Let_def by simp
qed

theorem short_file_rejected_witness:
  "contents example_fs ''short.bmp'' = Some [66, 77] \<and>
   length [66 :: uchar, 77] < BMP_HEADER_SIZE \<and>
   readBmp example_fs ''short.bmp'' (replicate 54 0) None example_heap =
     (False, [66, 77] @ drop (length [66 :: uchar, 77]) (replicate 54 0), None, example_heap) \<and>
   contents example_fs ''cut.bmp'' = Some (example_header @ [10, 20]) \<and>
   BMP_HEADER_SIZE \<le> length (example_header @ [10, 20]) \<and>
   length (example_header @ [10, 20]) <
     BMP_HEADER_SIZE + PIXEL_REAL_SIZE *
       unat (getWidth (example_header @ [10, 20]) * getHeight (example_header @ [10, 20])) \<and>
   PIXEL_REAL_SIZE *
     unat (getWidth (example_header @ [10, 20]) * getHeight (example_header @ [10, 20])) < 2 ^ 64 \<and>
   readBmp example_fs ''cut.bmp'' (replicate 54 0) None example_heap =
     (False, take BMP_HEADER_SIZE (example_header @ [10, 20]) @ drop BMP_HEADER_SIZE (replicate 54 0),
      None, example_heap)"
proof -
  have a1: "contents example_fs ''short.bmp'' = Some [66, 77]" by (simp add: example_fs_def)
  have a2: "length [66 :: uchar, 77] < BMP_HEADER_SIZE" by (simp add: BMP_HEADER_SIZE_def)
  have b1: "contents example_fs ''cut.bmp'' = Some (example_header @ [10, 20])" by (simp add: example_fs_def)
  have b2: "BMP_HEADER_SIZE \<le> length (example_header @ [10, 20])"
    by (simp add: example_lengths BMP_HEADER_SIZE_def)
  have b3: "length (example_header @ [10, 20]) <
      BMP_HEADER_SIZE + PIXEL_REAL_SIZE *
        unat (getWidth (example_header @ [10, 20]) * getHeight (example_header @ [10, 20]))"
    unfolding example_dims by (simp add: example_lengths BMP_HEADER_SIZE_def PIXEL_REAL_SIZE_def)
  have b4: "PIXEL_REAL_SIZE *
      unat (getWidth (example_header @ [10, 20]) * getHeight (example_header @ [10, 20])) < 2 ^ 64"
    unfolding example_dims by (simp add: PIXEL_REAL_SIZE_def)
  from short_file_rejected[OF a1, of "replicate 54 0" None example_heap] a2
  have r1: "readBmp example_fs ''short.bmp'' (replicate 54 0) None example_heap =
      (False, [66, 77] @ drop (length [66 :: uchar, 77]) (replicate 54 0), None, example_heap)" by blast
  from short_file_rejected[OF b1, of "replicate 54 0" None example_heap] b2 b3 b4
  have r2: "readBmp example_fs ''cut.bmp'' (replicate 54 0) None example_heap =
      (False, take BMP_HEADER_SIZE (example_header @ [10, 20]) @ drop BMP_HEADER_SIZE (replicate 54 0),
       None, example_heap)" by blast
  from a1 a2 r1 b1 b2 b3 b4 r2 show ?thesis by blast
qed

text \<open>
  \<^bold>\<open>C9\<close> (usage). Invoked with an argument count other than the program name plus three
  arguments, the program prints the usage line and exits with status 0, touching neither the
  file system nor the heap.
\<close>

theorem usage_exit_status:
  assumes "length argv \<noteq> 4"
  shows "main header0 h fs argv = (0, [usage_line], fs, h)"
  using assms by (simp add: main_def)

theorem usage_exit_status_witness:
  "length [''smooth'', ''in.bmp''] \<noteq> 4 \<and>
   main (replicate 54 0) example_heap example_fs [''smooth'', ''in.bmp''] =
     (0, [usage_line], example_fs, example_heap)"
proof -
  have h: "length [''smooth'', ''in.bmp''] \<noteq> 4" by simp
  from usage_exit_status[OF h, of "replicate 54 0" example_heap example_fs] h show ?thesis by blast
qed

text \<open>
  \<^bold>\<open>C7\<close> (the header is preserved). In every run that decodes its input and can open
  its output, the program exits with status 0 and the first 54 bytes of the output file are
  the first 54 bytes of the input file, although the filter ran in between; no header byte is
  interpreted other than the width and height fields.
\<close>

theorem main_preserves_header:
  assumes "length argv = 4"
    and "readBmp fs (argv ! 1) header0 None h = (True, header, bmp, h1)"
    and "writable fs (argv ! 2)"
  shows "\<exists>fs' h' f g. main header0 h fs argv = (0, [], fs', h') \<and>
           contents fs (argv ! 1) = Some f \<and> contents fs' (argv ! 2) = Some g \<and>
           take BMP_HEADER_SIZE g = take BMP_HEADER_SIZE f"
proof -
  from readBmp_True[OF assms(2)] obtain f where f: "contents fs (argv ! 1) = Some f"
    "BMP_HEADER_SIZE \<le> length f" "take BMP_HEADER_SIZE header = take BMP_HEADER_SIZE f" by blast
  define radius :: size_t where "radius = scast (atoi (argv ! 3))"
  define res where "res = ((processImageSmoothFilter (the bmp) (getWidth header) (getHeight header) radius) ^^ 100)
      (map (fresh_contents h1) [0 ..< unat (3 * (getWidth header * getHeight header)) div 3])"
  define g where "g = take BMP_HEADER_SIZE header @
      concat (map (\<lambda>i. bytes_of_pixel (res ! i)) [0 ..< unat (getWidth header * getHeight header)])"
  define fs' where "fs' = fs\<lparr>contents := (contents fs)(argv ! 2 \<mapsto> g)\<rparr>"
  have w: "writeBmp fs (argv ! 2) header res = (True, fs')"
    using assms(3) by (simp add: writeBmp_def Let_def g_def fs'_def)
  have rb: "readBmp fs (argv ! Suc 0) header0 None h = (True, header, bmp, h1)"
    using assms(2) by simp
  have w': "writeBmp fs (argv ! 2) header
      (((processImageSmoothFilter (the bmp) (getWidth header) (getHeight header) (scast (atoi (argv ! 3)))) ^^ 100)
        (map (fresh_contents h1) [0 ..< unat (3 * (getWidth header * getHeight header)) div 3])) = (True, fs')"
    using w by (simp only: res_def radius_def)
  have "main header0 h fs argv = (0, [], fs',
      snd (deallocateMemory (Some res) (snd (deallocateMemory bmp
        (snd (allocateMemory (getWidth header * getHeight header) h1))))))"
    unfolding main_def Let_def using assms(1)
    by (simp add: rb allocateMemory_def Let_def w' split_beta res_def radius_def)
  then have "\<exists>h'. main header0 h fs argv = (0, [], fs', h')" by blast
  moreover have "contents fs' (argv ! 2) = Some g" by (simp add: fs'_def)
  moreover have "take BMP_HEADER_SIZE g = take BMP_HEADER_SIZE f"
  proof -
    have "length (take BMP_HEADER_SIZE header) = length (take BMP_HEADER_SIZE f)"
      by (simp only: f(3))
    then have "length (take BMP_HEADER_SIZE header) = BMP_HEADER_SIZE" using f(2) by simp
    then show ?thesis unfolding g_def using f(3) by simp
  qed
  ultimately show ?thesis using f(1) by blast
qed

theorem main_preserves_header_witness:
  "length [''smooth'', ''in.bmp'', ''out.bmp'', ''1''] = 4 \<and>
   readBmp example_fs ([''smooth'', ''in.bmp'', ''out.bmp'', ''1''] ! 1) (replicate 54 0) None example_heap =
     (True, example_header, Some [\<lparr>chan_b = 10, chan_g = 20, chan_r = 30\<rparr>],
      example_heap\<lparr>live_blocks := 1\<rparr>) \<and>
   writable example_fs ([''smooth'', ''in.bmp'', ''out.bmp'', ''1''] ! 2) \<and>
   (\<exists>fs' h' f g.
      main (replicate 54 0) example_heap example_fs [''smooth'', ''in.bmp'', ''out.bmp'', ''1''] = (0, [], fs', h') \<and>
      contents example_fs ([''smooth'', ''in.bmp'', ''out.bmp'', ''1''] ! 1) = Some f \<and>
      contents fs' ([''smooth'', ''in.bmp'', ''out.bmp'', ''1''] ! 2) = Some g \<and>
      take BMP_HEADER_SIZE g = take BMP_HEADER_SIZE f)"
proof -
  let ?argv = "[''smooth'', ''in.bmp'', ''out.bmp'', ''1'']"
  have h1: "length ?argv = 4" by simp
  have c: "contents example_fs ''in.bmp'' = Some example_file" by (simp add: example_fs_def)
  have l: "BMP_HEADER_SIZE \<le> length example_file" by (simp add: example_lengths BMP_HEADER_SIZE_def)
  have rp: "read_pixels 0 (Suc 0) [10, 20, 30] [gray 0] = Some [\<lparr>chan_b = 10, chan_g = 20, chan_r = 30\<rparr>]"
    by (simp add: read_pixels.simps[of 0] read_pixels.simps[of "Suc 0"] fread_def PIXEL_REAL_SIZE_def
        pixel_of_bytes_def)
  have "readBmp example_fs ''in.bmp'' (replicate 54 0) None example_heap =
      (True, example_header, Some [\<lparr>chan_b = 10, chan_g = 20, chan_r = 30\<rparr>],
       example_heap\<lparr>live_blocks := 1\<rparr>)"
    unfolding readBmp_header_ok[OF c l] Let_def
    unfolding example_file_def example_dims
    by (simp add: example_lengths BMP_HEADER_SIZE_def rp example_heap_def)
  then have h2: "readBmp example_fs (?argv ! 1) (replicate 54 0) None example_heap =
      (True, example_header, Some [\<lparr>chan_b = 10, chan_g = 20, chan_r = 30\<rparr>],
       example_heap\<lparr>live_blocks := 1\<rparr>)" by simp
  have h3: "writable example_fs (?argv ! 2)" by (simp add: example_fs_def)
  from main_preserves_header[OF h1 h2 h3] h1 h2 h3 show ?thesis by blast
qed

end
